theory Spec2Isabelle
  imports Main "HOL-Library.Word"
begin

unbundle bit_operations_syntax

section \<open>The brk RAM block device (drivers/block/brk.c)\<close>

text \<open>
  A shallow embedding of the page store and copy engine of \<^verbatim>\<open>brk.c\<close>. The target is a
  64-bit kernel with 4096-byte pages: \<^verbatim>\<open>sector_t\<close>, \<^verbatim>\<open>size_t\<close>, \<^verbatim>\<open>pgoff_t\<close> and
  \<^verbatim>\<open>unsigned long\<close> are 64 bits wide. Integers are naturals; where the C arithmetic can
  leave the 64-bit range (the additions on \<^verbatim>\<open>sector\<close> and \<^verbatim>\<open>pos++\<close>) the reduction
  modulo \<open>2 ^ 64\<close> is written out. The subtractions of the source
  (\<^verbatim>\<open>PAGE_SIZE - offset\<close>, \<^verbatim>\<open>n - copy\<close>, \<^verbatim>\<open>n -= PAGE_SIZE\<close>) never go below zero there,
  so truncating subtraction on naturals agrees with them.
\<close>

subsection \<open>Constants\<close>

definition SECTOR_SHIFT :: nat where
  "SECTOR_SHIFT = 9"

text \<open>\<^verbatim>\<open>PAGE_SHIFT\<close> comes from the architecture headers; 12 gives the 4096-byte page.\<close>

definition PAGE_SHIFT :: nat where
  "PAGE_SHIFT = 12"

definition PAGE_SIZE :: nat where
  "PAGE_SIZE = push_bit PAGE_SHIFT 1"

definition PAGE_SECTORS_SHIFT :: nat where
  "PAGE_SECTORS_SHIFT = PAGE_SHIFT - SECTOR_SHIFT"

definition PAGE_SECTORS :: nat where
  "PAGE_SECTORS = push_bit PAGE_SECTORS_SHIFT 1"

definition SHA1_LENGTH :: nat where
  "SHA1_LENGTH = 20"

definition FREE_BATCH :: nat where
  "FREE_BATCH = 16"


definition EIO :: int where "EIO = 5"
definition EBUSY :: int where "EBUSY = 16"
definition ENOTTY :: int where "ENOTTY = 25"
definition ENOSPC :: int where "ENOSPC = 28"

text \<open>The width of \<^verbatim>\<open>sector_t\<close> and \<^verbatim>\<open>unsigned long\<close>: values wrap at \<open>2 ^ 64\<close>.\<close>

definition ULONG_WRAP :: nat where
  "ULONG_WRAP = 2 ^ 64"

subsection \<open>Faults\<close>

text \<open>
  \<^verbatim>\<open>BUG_ON\<close> stops the kernel; \<open>BUG l\<close> is the assertion at line \<open>l\<close> of \<^verbatim>\<open>brk.c\<close>.
  \<open>Bad_access\<close> stands for what C leaves undefined: following a pointer to a page that
  is not allocated, or a \<^verbatim>\<open>memcpy\<close>/\<^verbatim>\<open>memset\<close> that leaves its buffer.
\<close>

datatype fault = BUG nat | Bad_access

definition bind_f :: "fault + 'a \<Rightarrow> ('a \<Rightarrow> fault + 'b) \<Rightarrow> fault + 'b" where
  "bind_f m f = (case m of Inl e \<Rightarrow> Inl e | Inr x \<Rightarrow> f x)"

subsection \<open>Data\<close>

type_synonym byte = "8 word"

text \<open>
  A \<^verbatim>\<open>struct page\<close> together with its frame: the \<^verbatim>\<open>index\<close> field and the bytes that
  \<^verbatim>\<open>kmap_atomic\<close> makes addressable.
\<close>

record page =
  index :: nat
  data :: "byte list"

text \<open>Calls into services whose effects lie outside the driver's data: the kernel log, the
  crypto API and the buffer cache above the device.\<close>

datatype kcall =
    Printk
  | Crypto_alloc_hash
  | Crypto_hash_init
  | Crypto_hash_update
  | Crypto_hash_final
  | Crypto_free_hash
  | Kill_bdev

text \<open>
  \<^verbatim>\<open>struct brk_device\<close> and the part of the kernel it lives in.
  \<^item> \<open>brk_pages\<close>: the radix tree, as the list of its (index, page pointer) slots;
  \<^item> \<open>capacity\<close>: \<^verbatim>\<open>get_capacity(brk_disk)\<close>, in sectors;
  \<^item> \<open>bd_openers\<close>: the open count of the block device node;
  \<^item> \<open>page_mem\<close>: the pages handed out by \<^verbatim>\<open>alloc_page\<close>, by address; \<open>None\<close> once freed;
  \<^item> \<open>avail\<close>: the outcomes of the allocator calls still to come (\<^verbatim>\<open>alloc_page\<close> and
    \<^verbatim>\<open>radix_tree_preload\<close>), in order; an exhausted list is an allocator out of memory;
  \<^item> \<open>klog\<close>: the \<open>kcall\<close>s made so far, in order.
\<close>

record brk_device =
  brk_number :: int
  brk_pages :: "(nat \<times> nat) list"
  capacity :: nat
  bd_openers :: int
  page_mem :: "page option list"
  avail :: "bool list"
  klog :: "kcall list"

subsection \<open>Kernel services\<close>

text \<open>Following a \<^verbatim>\<open>struct page *\<close>.\<close>

definition page_at :: "brk_device \<Rightarrow> nat \<Rightarrow> page option" where
  "page_at brk p = (if p < length (page_mem brk) then page_mem brk ! p else None)"

definition set_page :: "brk_device \<Rightarrow> nat \<Rightarrow> page \<Rightarrow> brk_device" where
  "set_page brk p pg = brk\<lparr>page_mem := (page_mem brk)[p := Some pg]\<rparr>"

text \<open>
  \<^verbatim>\<open>alloc_page(GFP_NOIO | __GFP_ZERO | ...)\<close>: a new zero-filled page at an address not in
  use, or \<^verbatim>\<open>NULL\<close>. The \<^verbatim>\<open>index\<close> field of a new page holds no meaningful value yet.
\<close>

definition alloc_page :: "brk_device \<Rightarrow> nat option \<times> brk_device" where
  "alloc_page brk =
     (case avail brk of
        [] \<Rightarrow> (None, brk)
      | ok # rest \<Rightarrow>
          if ok
          then (Some (length (page_mem brk)),
                brk\<lparr>avail := rest,
                    page_mem := page_mem brk @ [Some \<lparr>index = 0, data = replicate PAGE_SIZE 0\<rparr>]\<rparr>)
          else (None, brk\<lparr>avail := rest\<rparr>))"

definition free_page :: "brk_device \<Rightarrow> nat \<Rightarrow> brk_device" where
  "free_page brk p = brk\<lparr>page_mem := (page_mem brk)[p := None]\<rparr>"

text \<open>\<^verbatim>\<open>radix_tree_preload(GFP_NOIO)\<close>: \<open>True\<close> when the nodes for one insertion are reserved.\<close>

definition radix_tree_preload :: "brk_device \<Rightarrow> bool \<times> brk_device" where
  "radix_tree_preload brk =
     (case avail brk of
        [] \<Rightarrow> (False, brk)
      | ok # rest \<Rightarrow> (ok, brk\<lparr>avail := rest\<rparr>))"

definition radix_tree_lookup :: "(nat \<times> nat) list \<Rightarrow> nat \<Rightarrow> nat option" where
  "radix_tree_lookup t idx = map_of t idx"

text \<open>\<^verbatim>\<open>radix_tree_insert\<close>: \<open>None\<close> is \<^verbatim>\<open>-EEXIST\<close>, the slot is taken and the tree is unchanged.\<close>

definition radix_tree_insert :: "(nat \<times> nat) list \<Rightarrow> nat \<Rightarrow> nat \<Rightarrow> (nat \<times> nat) list option" where
  "radix_tree_insert t idx p =
     (case map_of t idx of None \<Rightarrow> Some ((idx, p) # t) | Some q \<Rightarrow> None)"

definition radix_tree_delete :: "(nat \<times> nat) list \<Rightarrow> nat \<Rightarrow> nat option \<times> (nat \<times> nat) list" where
  "radix_tree_delete t idx = (map_of t idx, filter (\<lambda>e. fst e \<noteq> idx) t)"

text \<open>
  \<^verbatim>\<open>radix_tree_gang_lookup\<close>: the pages of the first \<open>max_items\<close> slots with an index of
  at least \<open>first_index\<close>, by ascending index.
\<close>

definition radix_tree_gang_lookup :: "(nat \<times> nat) list \<Rightarrow> nat \<Rightarrow> nat \<Rightarrow> nat list" where
  "radix_tree_gang_lookup t first_index max_items =
     take max_items (map snd (sort_key fst (filter (\<lambda>e. first_index \<le> fst e) t)))"

text \<open>
  \<^verbatim>\<open>memcpy(dst + doff, src + soff, n)\<close> and \<^verbatim>\<open>memset(dst + doff, c, n)\<close> on buffers given as
  byte lists; the result is the destination buffer afterwards.
\<close>

definition memcpy :: "byte list \<Rightarrow> nat \<Rightarrow> byte list \<Rightarrow> nat \<Rightarrow> nat \<Rightarrow> fault + byte list" where
  "memcpy dst doff src soff n =
     (if soff + n \<le> length src \<and> doff + n \<le> length dst
      then Inr (take doff dst @ take n (drop soff src) @ drop (doff + n) dst)
      else Inl Bad_access)"

definition memset :: "byte list \<Rightarrow> nat \<Rightarrow> byte \<Rightarrow> nat \<Rightarrow> fault + byte list" where
  "memset dst doff c n =
     (if doff + n \<le> length dst
      then Inr (take doff dst @ replicate n c @ drop (doff + n) dst)
      else Inl Bad_access)"

subsection \<open>Basic facts about the constants and the fault monad\<close>

lemma bind_f_Inr [simp]: "bind_f (Inr x) f = f x"
  by (simp add: bind_f_def)

lemma bind_f_Inl [simp]: "bind_f (Inl e) f = Inl e"
  by (simp add: bind_f_def)


lemma bind_f_cong [fundef_cong]:
  "m = m' \<Longrightarrow> (\<And>x. m' = Inr x \<Longrightarrow> f x = f' x) \<Longrightarrow> bind_f m f = bind_f m' f'"
  by (cases m') simp_all

lemma PAGE_SIZE_eq: "PAGE_SIZE = 4096"
  by (simp add: PAGE_SIZE_def PAGE_SHIFT_def)

lemma PAGE_SECTORS_SHIFT_eq: "PAGE_SECTORS_SHIFT = 3"
  by (simp add: PAGE_SECTORS_SHIFT_def PAGE_SHIFT_def SECTOR_SHIFT_def)

lemma PAGE_SECTORS_eq: "PAGE_SECTORS = 8"
  by (simp add: PAGE_SECTORS_def PAGE_SECTORS_SHIFT_eq)

lemma sector_offset_eq:
  "push_bit SECTOR_SHIFT (sector AND (PAGE_SECTORS - 1)) = (sector mod 8) * 512"
proof -
  have "sector AND (7::nat) = take_bit 3 sector"
    by (simp add: take_bit_eq_mask mask_eq_exp_minus_1)
  then show ?thesis
    by (simp add: PAGE_SECTORS_eq SECTOR_SHIFT_def push_bit_eq_mult take_bit_eq_mod)
qed

lemma sector_index_eq: "drop_bit PAGE_SECTORS_SHIFT (sector::nat) = sector div 8"
  by (simp add: PAGE_SECTORS_SHIFT_eq drop_bit_eq_div)

lemma bytes_to_sectors_eq: "drop_bit SECTOR_SHIFT (n::nat) = n div 512"
  by (simp add: SECTOR_SHIFT_def drop_bit_eq_div)

subsection \<open>The page store\<close>

text \<open>\<^verbatim>\<open>brk_lookup_page\<close> (lines 64-88).\<close>

definition brk_lookup_page :: "brk_device \<Rightarrow> nat \<Rightarrow> fault + nat option" where
  "brk_lookup_page brk sector =
     (let idx = drop_bit PAGE_SECTORS_SHIFT sector;
          page = radix_tree_lookup (brk_pages brk) idx
      in case page of
           None \<Rightarrow> Inr None
         | Some p \<Rightarrow>
             (case page_at brk p of
                None \<Rightarrow> Inl Bad_access
              | Some pg \<Rightarrow> if index pg \<noteq> idx then Inl (BUG 85) else Inr (Some p)))"

text \<open>
  \<^verbatim>\<open>brk_insert_page\<close> (lines 95-141). \<open>brk_insert_locked\<close> is the section under
  \<^verbatim>\<open>brk_lock\<close> (lines 127-136), entered with the new page \<open>p\<close>; other threads may have
  changed the tree between the lookup of line 101 and the lock.
\<close>

definition brk_insert_locked :: "brk_device \<Rightarrow> nat \<Rightarrow> nat \<Rightarrow> fault + (nat option \<times> brk_device)" where
  "brk_insert_locked brk p idx =
     (case page_at brk p of
        None \<Rightarrow> Inl Bad_access
      | Some pg \<Rightarrow>
          (let brk1 = set_page brk p (pg\<lparr>index := idx\<rparr>)
           in case radix_tree_insert (brk_pages brk1) idx p of
                Some t \<Rightarrow> Inr (Some p, brk1\<lparr>brk_pages := t\<rparr>)
              | None \<Rightarrow>
                  (let brk2 = free_page brk1 p
                   in case radix_tree_lookup (brk_pages brk2) idx of
                        None \<Rightarrow> Inl (BUG 133)
                      | Some q \<Rightarrow>
                          (case page_at brk2 q of
                             None \<Rightarrow> Inl Bad_access
                           | Some pg' \<Rightarrow>
                               if index pg' \<noteq> idx then Inl (BUG 134)
                               else Inr (Some q, brk2)))))"

definition brk_insert_page :: "brk_device \<Rightarrow> nat \<Rightarrow> fault + (nat option \<times> brk_device)" where
  "brk_insert_page brk sector =
     bind_f (brk_lookup_page brk sector) (\<lambda>page.
       case page of
         Some p \<Rightarrow> Inr (Some p, brk)
       | None \<Rightarrow>
           (case alloc_page brk of
              (None, brk1) \<Rightarrow> Inr (None, brk1)
            | (Some p, brk1) \<Rightarrow>
                (case radix_tree_preload brk1 of
                   (False, brk2) \<Rightarrow> Inr (None, free_page brk2 p)
                 | (True, brk2) \<Rightarrow>
                     brk_insert_locked brk2 p (drop_bit PAGE_SECTORS_SHIFT sector))))"

text \<open>\<^verbatim>\<open>brk_free_page\<close> (lines 143-154).\<close>

definition brk_free_page :: "brk_device \<Rightarrow> nat \<Rightarrow> brk_device" where
  "brk_free_page brk sector =
     (let idx = drop_bit PAGE_SECTORS_SHIFT sector;
          (page, t) = radix_tree_delete (brk_pages brk) idx;
          brk1 = brk\<lparr>brk_pages := t\<rparr>
      in case page of Some p \<Rightarrow> free_page brk1 p | None \<Rightarrow> brk1)"

text \<open>\<^verbatim>\<open>clear_highpage\<close> zeroes the \<^verbatim>\<open>PAGE_SIZE\<close> bytes of a page.\<close>

definition clear_highpage :: "brk_device \<Rightarrow> nat \<Rightarrow> fault + brk_device" where
  "clear_highpage brk p =
     (case page_at brk p of
        None \<Rightarrow> Inl Bad_access
      | Some pg \<Rightarrow> Inr (set_page brk p (pg\<lparr>data := replicate PAGE_SIZE 0\<rparr>)))"

text \<open>\<^verbatim>\<open>brk_zero_page\<close> (lines 156-163).\<close>

definition brk_zero_page :: "brk_device \<Rightarrow> nat \<Rightarrow> fault + brk_device" where
  "brk_zero_page brk sector =
     bind_f (brk_lookup_page brk sector) (\<lambda>page.
       case page of Some p \<Rightarrow> clear_highpage brk p | None \<Rightarrow> Inr brk)"

text \<open>
  \<^verbatim>\<open>brk_free_pages\<close> (lines 170-200). \<open>brk_free_batch\<close> is the inner \<^verbatim>\<open>for\<close> loop over the
  batch \<^verbatim>\<open>pages[0..nr_pages)\<close>, \<open>brk_free_from\<close> the \<^verbatim>\<open>do ... while\<close> loop from \<open>pos\<close>.
\<close>

fun brk_free_batch :: "brk_device \<Rightarrow> nat \<Rightarrow> nat list \<Rightarrow> fault + (brk_device \<times> nat)" where
  "brk_free_batch brk pos [] = Inr (brk, pos)"
| "brk_free_batch brk pos (p # pages) =
     (case page_at brk p of
        None \<Rightarrow> Inl Bad_access
      | Some pg \<Rightarrow>
          if index pg < pos then Inl (BUG 185)
          else (let pos' = index pg;
                    (ret, t) = radix_tree_delete (brk_pages brk) pos'
                in if ret \<noteq> Some p then Inl (BUG 188)
                   else brk_free_batch (free_page (brk\<lparr>brk_pages := t\<rparr>) p) pos' pages))"

lemma radix_tree_delete_length:
  "radix_tree_delete t idx = (Some p, t') \<Longrightarrow> length t' < length t"
proof -
  assume a: "radix_tree_delete t idx = (Some p, t')"
  then have "map_of t idx = Some p" and t': "t' = filter (\<lambda>e. fst e \<noteq> idx) t"
    by (simp_all add: radix_tree_delete_def)
  then have "(idx, p) \<in> set t"
    by (simp add: map_of_SomeD)
  moreover have "\<not> fst (idx, p) \<noteq> idx"
    by simp
  ultimately show ?thesis
    unfolding t' by (rule length_filter_less)
qed

lemma brk_free_batch_length:
  "brk_free_batch brk pos pages = Inr (brk', pos') \<Longrightarrow>
   length (brk_pages brk') + length pages \<le> length (brk_pages brk)"
proof (induction pages arbitrary: brk pos)
  case Nil
  then show ?case by simp
next
  case (Cons p pages)
  from Cons.prems obtain pg t where
    pg: "page_at brk p = Some pg" and
    del: "radix_tree_delete (brk_pages brk) (index pg) = (Some p, t)" and
    rest: "brk_free_batch (free_page (brk\<lparr>brk_pages := t\<rparr>) p) (index pg) pages = Inr (brk', pos')"
    by (auto simp: Let_def split: option.splits if_splits prod.splits)
  from Cons.IH [OF rest] have "length (brk_pages brk') + length pages \<le> length t"
    by (simp add: free_page_def)
  moreover from del have "length t < length (brk_pages brk)"
    by (rule radix_tree_delete_length)
  ultimately show ?case by simp
qed

function brk_free_from :: "brk_device \<Rightarrow> nat \<Rightarrow> fault + brk_device" where
  "brk_free_from brk pos =
     (let pages = radix_tree_gang_lookup (brk_pages brk) pos FREE_BATCH;
          nr_pages = length pages
      in bind_f (brk_free_batch brk pos pages) (\<lambda>(brk', pos').
           if nr_pages = FREE_BATCH
           then brk_free_from brk' ((pos' + 1) mod ULONG_WRAP)
           else Inr brk'))"
  by pat_completeness auto
termination
proof (relation "measure (\<lambda>(brk, pos). length (brk_pages brk))")
  show "wf (measure (\<lambda>(brk, pos). length (brk_pages brk)))"
    by simp
next
  fix brk pos pages nr_pages x brk' pos'
  assume "pages = radix_tree_gang_lookup (brk_pages brk) pos FREE_BATCH"
    and "nr_pages = length pages"
    and "brk_free_batch brk pos pages = Inr x"
    and "(brk', pos') = x"
    and "nr_pages = FREE_BATCH"
  then have "length (brk_pages brk') + FREE_BATCH \<le> length (brk_pages brk)"
    using brk_free_batch_length [of brk pos pages brk' pos'] by simp
  then show "((brk', (pos' + 1) mod ULONG_WRAP), (brk, pos))
      \<in> measure (\<lambda>(brk, pos). length (brk_pages brk))"
    by (simp add: FREE_BATCH_def)
qed

definition brk_free_pages :: "brk_device \<Rightarrow> fault + brk_device" where
  "brk_free_pages brk = brk_free_from brk 0"

subsection \<open>The copy engine\<close>

text \<open>
  \<^verbatim>\<open>copy_from_brk\<close> (lines 306-338). The destination pointer is the buffer \<open>dst\<close> with the
  offset \<open>doff\<close> into it (\<^verbatim>\<open>mem + off\<close> in \<^verbatim>\<open>brk_do_bvec\<close>).
\<close>

definition copy_from_brk :: "byte list \<Rightarrow> nat \<Rightarrow> brk_device \<Rightarrow> nat \<Rightarrow> nat \<Rightarrow> fault + byte list" where
  "copy_from_brk dst doff brk sector n =
     (let offset = push_bit SECTOR_SHIFT (sector AND (PAGE_SECTORS - 1));
          copy = min n (PAGE_SIZE - offset)
      in bind_f (brk_lookup_page brk sector) (\<lambda>page.
         bind_f (case page of
                   Some p \<Rightarrow>
                     (case page_at brk p of
                        None \<Rightarrow> Inl Bad_access
                      | Some pg \<Rightarrow> memcpy dst doff (data pg) offset copy)
                 | None \<Rightarrow> memset dst doff 0 copy) (\<lambda>dst1.
         if copy < n
         then (let doff' = doff + copy;
                   sector' = (sector + drop_bit SECTOR_SHIFT copy) mod ULONG_WRAP;
                   copy' = n - copy
               in bind_f (brk_lookup_page brk sector') (\<lambda>page.
                  case page of
                    Some p \<Rightarrow>
                      (case page_at brk p of
                         None \<Rightarrow> Inl Bad_access
                       | Some pg \<Rightarrow> memcpy dst1 doff' (data pg) 0 copy')
                  | None \<Rightarrow> memset dst1 doff' 0 copy'))
         else Inr dst1)))"

text \<open>\<^verbatim>\<open>copy_to_brk_setup\<close> (lines 205-219); the status is \<open>0\<close> or \<open>- ENOSPC\<close>.\<close>

definition copy_to_brk_setup :: "brk_device \<Rightarrow> nat \<Rightarrow> nat \<Rightarrow> fault + (int \<times> brk_device)" where
  "copy_to_brk_setup brk sector n =
     (let offset = push_bit SECTOR_SHIFT (sector AND (PAGE_SECTORS - 1));
          copy = min n (PAGE_SIZE - offset)
      in bind_f (brk_insert_page brk sector) (\<lambda>(page, brk1).
           if page = None then Inr (- ENOSPC, brk1)
           else if copy < n
           then (let sector' = (sector + drop_bit SECTOR_SHIFT copy) mod ULONG_WRAP
                 in bind_f (brk_insert_page brk1 sector') (\<lambda>(page, brk2).
                      if page = None then Inr (- ENOSPC, brk2) else Inr (0, brk2)))
           else Inr (0, brk1)))"

text \<open>\<^verbatim>\<open>discard_from_brk\<close> (lines 222-238), with its dead \<^verbatim>\<open>if (0)\<close> branch.\<close>

function discard_from_brk :: "brk_device \<Rightarrow> nat \<Rightarrow> nat \<Rightarrow> fault + brk_device" where
  "discard_from_brk brk sector n =
     (if n \<ge> PAGE_SIZE
      then bind_f (if False then Inr (brk_free_page brk sector) else brk_zero_page brk sector)
             (\<lambda>brk'. discard_from_brk brk'
                        ((sector + drop_bit SECTOR_SHIFT PAGE_SIZE) mod ULONG_WRAP)
                        (n - PAGE_SIZE))
      else Inr brk)"
  by pat_completeness auto
termination
  by (relation "measure (\<lambda>(brk, sector, n). n)") (auto simp: PAGE_SIZE_eq)

text \<open>
  The calls of lines 263-284 of \<^verbatim>\<open>copy_to_brk\<close>: the digest of the ten bytes \<^verbatim>\<open>'A'\<close> in
  \<^verbatim>\<open>dayjob\<close> is computed into \<^verbatim>\<open>lambos\<close> and printed. Neither buffer is read again, and
  neither \<^verbatim>\<open>src\<close> nor the page is an argument of these calls.
\<close>

definition digest_calls :: "kcall list" where
  "digest_calls =
     [Printk, Crypto_alloc_hash, Crypto_hash_init, Crypto_hash_update, Crypto_hash_final]
     @ replicate 20 Printk @ [Crypto_free_hash]"

definition kcalls :: "kcall list \<Rightarrow> brk_device \<Rightarrow> brk_device" where
  "kcalls cs brk = brk\<lparr>klog := klog brk @ cs\<rparr>"

text \<open>\<^verbatim>\<open>memcpy(kmap_atomic(page) + doff, src + soff, n)\<close> into the page at \<open>p\<close>.\<close>

definition memcpy_to_page :: "brk_device \<Rightarrow> nat \<Rightarrow> nat \<Rightarrow> byte list \<Rightarrow> nat \<Rightarrow> nat \<Rightarrow> fault + brk_device" where
  "memcpy_to_page brk p doff src soff n =
     (case page_at brk p of
        None \<Rightarrow> Inl Bad_access
      | Some pg \<Rightarrow>
          bind_f (memcpy (data pg) doff src soff n) (\<lambda>d. Inr (set_page brk p (pg\<lparr>data := d\<rparr>))))"

text \<open>
  \<^verbatim>\<open>copy_to_brk\<close> (lines 243-301). The source pointer is the buffer \<open>src\<close> with the offset
  \<open>soff\<close> into it.
\<close>

definition copy_to_brk :: "brk_device \<Rightarrow> byte list \<Rightarrow> nat \<Rightarrow> nat \<Rightarrow> nat \<Rightarrow> fault + brk_device" where
  "copy_to_brk brk src soff sector n =
     (let offset = push_bit SECTOR_SHIFT (sector AND (PAGE_SECTORS - 1));
          copy = min n (PAGE_SIZE - offset)
      in bind_f (brk_lookup_page brk sector) (\<lambda>page.
         case page of
           None \<Rightarrow> Inl (BUG 260)
         | Some p \<Rightarrow>
             bind_f (memcpy_to_page (kcalls digest_calls brk) p offset src soff copy) (\<lambda>brk1.
             if copy < n
             then (let soff' = soff + copy;
                       sector' = (sector + drop_bit SECTOR_SHIFT copy) mod ULONG_WRAP;
                       copy' = n - copy
                   in bind_f (brk_lookup_page brk1 sector') (\<lambda>page.
                      case page of
                        None \<Rightarrow> Inl (BUG 295)
                      | Some q \<Rightarrow> memcpy_to_page brk1 q 0 src soff' copy'))
             else Inr brk1)))"

subsection \<open>Request processing\<close>

datatype rw = READ | WRITE | READA

text \<open>
  \<^verbatim>\<open>brk_do_bvec\<close> (lines 343-368). \<open>page\<close> is the memory of the segment's page; the result
  is the status, that memory afterwards, and the device.
\<close>

definition brk_do_bvec ::
  "brk_device \<Rightarrow> byte list \<Rightarrow> nat \<Rightarrow> nat \<Rightarrow> rw \<Rightarrow> nat \<Rightarrow> fault + (int \<times> byte list \<times> brk_device)" where
  "brk_do_bvec brk page len off rw sector =
     bind_f (if rw \<noteq> READ then copy_to_brk_setup brk sector len else Inr (0, brk)) (\<lambda>(err, brk1).
       if err \<noteq> 0 then Inr (err, page, brk1)
       else if rw = READ
       then bind_f (copy_from_brk page off brk1 sector len) (\<lambda>mem. Inr (err, mem, brk1))
       else bind_f (copy_to_brk brk1 page off sector len) (\<lambda>brk2. Inr (err, page, brk2)))"

record bio_vec =
  bv_page :: "byte list"
  bv_len :: nat
  bv_offset :: nat

text \<open>
  A \<^verbatim>\<open>struct bio\<close>: \<open>bi_rw\<close> is \<^verbatim>\<open>bio_rw(bio)\<close>, \<open>bi_discard\<close> the flag \<^verbatim>\<open>REQ_DISCARD\<close> of
  \<^verbatim>\<open>bio->bi_rw\<close>, \<open>bi_io_vec\<close> the segments that \<^verbatim>\<open>bio_for_each_segment\<close> visits.
\<close>

record bio =
  bi_sector :: nat
  bi_size :: nat
  bi_rw :: rw
  bi_discard :: bool
  bi_io_vec :: "bio_vec list"

text \<open>\<^verbatim>\<open>bio_end_sector\<close> of \<^verbatim>\<open>linux/bio.h\<close>: \<^verbatim>\<open>bi_sector + (bi_size >> 9)\<close>.\<close>

definition bio_end_sector :: "bio \<Rightarrow> nat" where
  "bio_end_sector b = (bi_sector b + drop_bit 9 (bi_size b)) mod ULONG_WRAP"

text \<open>The \<^verbatim>\<open>bio_for_each_segment\<close> loop of \<^verbatim>\<open>brk_make_request\<close> (lines 395-402).\<close>

fun brk_segments ::
  "brk_device \<Rightarrow> rw \<Rightarrow> nat \<Rightarrow> int \<Rightarrow> bio_vec list \<Rightarrow> fault + (int \<times> bio_vec list \<times> brk_device)" where
  "brk_segments brk rw sector err [] = Inr (err, [], brk)"
| "brk_segments brk rw sector err (bvec # bvecs) =
     (let len = bv_len bvec
      in bind_f (brk_do_bvec brk (bv_page bvec) len (bv_offset bvec) rw sector) (\<lambda>(err', mem, brk').
           if err' \<noteq> 0 then Inr (err', bvec\<lparr>bv_page := mem\<rparr> # bvecs, brk')
           else bind_f (brk_segments brk' rw ((sector + drop_bit SECTOR_SHIFT len) mod ULONG_WRAP)
                          err' bvecs)
                  (\<lambda>(err'', bvecs', brk''). Inr (err'', bvec\<lparr>bv_page := mem\<rparr> # bvecs', brk''))))"

text \<open>
  \<^verbatim>\<open>brk_make_request\<close> (lines 371-406): the status given to \<^verbatim>\<open>bio_endio\<close>, the request with
  the memory of its segments afterwards, and the device.
\<close>

definition brk_make_request :: "brk_device \<Rightarrow> bio \<Rightarrow> fault + (int \<times> bio \<times> brk_device)" where
  "brk_make_request brk b =
     (let err = - EIO;
          sector = bi_sector b
      in if bio_end_sector b > capacity brk then Inr (err, b, brk)
         else if bi_discard b
         then bind_f (discard_from_brk brk sector (bi_size b)) (\<lambda>brk'. Inr (0, b, brk'))
         else (let rw = (if bi_rw b = READA then READ else bi_rw b)
               in bind_f (brk_segments brk rw sector err (bi_io_vec b))
                    (\<lambda>(err', bvecs, brk'). Inr (err', b\<lparr>bi_io_vec := bvecs\<rparr>, brk'))))"


text \<open>\<^verbatim>\<open>brk_ioctl\<close> (lines 441-473); \<^verbatim>\<open>BLKFLSBUF\<close> is \<^verbatim>\<open>_IO(0x12, 97)\<close>.\<close>

definition BLKFLSBUF :: nat where
  "BLKFLSBUF = 4705"

definition brk_ioctl :: "brk_device \<Rightarrow> nat \<Rightarrow> fault + (int \<times> brk_device)" where
  "brk_ioctl brk cmd =
     (if cmd \<noteq> BLKFLSBUF then Inr (- ENOTTY, brk)
      else if bd_openers brk \<le> 1
      then bind_f (brk_free_pages (kcalls [Kill_bdev] brk)) (\<lambda>brk'. Inr (0, brk'))
      else Inr (- EBUSY, brk))"

section \<open>Vocabulary of the properties\<close>

text \<open>
  A range of \<open>n\<close> bytes from \<open>sector\<close> lies inside the capacity when its end sector, as
  \<^verbatim>\<open>brk_make_request\<close> computes it, does not exceed the capacity (itself a \<^verbatim>\<open>sector_t\<close>).
\<close>

definition in_capacity :: "brk_device \<Rightarrow> nat \<Rightarrow> nat \<Rightarrow> bool" where
  "in_capacity brk sector n \<longleftrightarrow>
     capacity brk < ULONG_WRAP \<and> sector + drop_bit SECTOR_SHIFT n \<le> capacity brk"

text \<open>The page \<open>idx\<close> holds a byte of the range of \<open>n\<close> bytes from \<open>sector\<close>.\<close>

definition page_touched :: "nat \<Rightarrow> nat \<Rightarrow> nat \<Rightarrow> bool" where
  "page_touched sector n idx \<longleftrightarrow>
     0 < n \<and> (sector * 2 ^ SECTOR_SHIFT) div PAGE_SIZE \<le> idx
           \<and> idx \<le> (sector * 2 ^ SECTOR_SHIFT + n - 1) div PAGE_SIZE"

text \<open>The range runs past the end of its first page: the \<^verbatim>\<open>copy < n\<close> of the source.\<close>

definition crosses_page :: "nat \<Rightarrow> nat \<Rightarrow> bool" where
  "crosses_page sector n \<longleftrightarrow>
     PAGE_SIZE - push_bit SECTOR_SHIFT (sector AND (PAGE_SECTORS - 1)) < n"

text \<open>The range ends inside the page after its first one, at the latest.\<close>

definition single_crossing :: "nat \<Rightarrow> nat \<Rightarrow> bool" where
  "single_crossing sector n \<longleftrightarrow>
     push_bit SECTOR_SHIFT (sector AND (PAGE_SECTORS - 1)) + n \<le> 2 * PAGE_SIZE"

text \<open>Overwriting \<open>dst\<close> from offset \<open>doff\<close> with \<open>bytes\<close>.\<close>

definition splice :: "'a list \<Rightarrow> nat \<Rightarrow> 'a list \<Rightarrow> 'a list" where
  "splice dst doff bytes = take doff dst @ bytes @ drop (doff + length bytes) dst"

text \<open>A device as \<^verbatim>\<open>brk_alloc\<close> leaves it, with \<^verbatim>\<open>rd_size\<close> = 1024: no page, 2048 sectors.\<close>

definition new_dev :: "bool list \<Rightarrow> brk_device" where
  "new_dev oks =
     \<lparr>brk_number = 0, brk_pages = [], capacity = 1024 * 2, bd_openers = 1,
      page_mem = [], avail = oks, klog = []\<rparr>"

text \<open>
  Every slot of the radix tree points to an allocated page of \<^verbatim>\<open>PAGE_SIZE\<close> bytes whose
  \<^verbatim>\<open>index\<close> is the key of the slot, and no key has two slots.
\<close>

definition tree_ok :: "brk_device \<Rightarrow> bool" where
  "tree_ok brk \<longleftrightarrow>
     distinct (map fst (brk_pages brk)) \<and>
     (\<forall>e \<in> set (brk_pages brk).
        case page_at brk (snd e) of
          None \<Rightarrow> False
        | Some pg \<Rightarrow> index pg = fst e \<and> length (data pg) = PAGE_SIZE)"

text \<open>Every allocated page is in a slot of the radix tree.\<close>

definition no_leak :: "brk_device \<Rightarrow> bool" where
  "no_leak brk \<longleftrightarrow>
     (\<forall>p \<in> set [0..<length (page_mem brk)].
        page_mem brk ! p \<noteq> None \<longrightarrow> p \<in> snd ` set (brk_pages brk))"

text \<open>The invariant of the page store.\<close>

definition store_inv :: "brk_device \<Rightarrow> bool" where
  "store_inv brk \<longleftrightarrow> tree_ok brk \<and> no_leak brk"


text \<open>The bytes the device holds for the page \<open>idx\<close>; an absent page holds zeroes.\<close>

definition page_bytes :: "brk_device \<Rightarrow> nat \<Rightarrow> byte list" where
  "page_bytes brk idx =
     (case radix_tree_lookup (brk_pages brk) idx of
        None \<Rightarrow> replicate PAGE_SIZE 0
      | Some p \<Rightarrow> (case page_at brk p of None \<Rightarrow> [] | Some pg \<Rightarrow> data pg))"

text \<open>
  \<open>brk'\<close> has every slot of \<open>brk\<close> with the same page, unchanged; a slot it has in
  addition holds a zero-filled page tagged with its key.
\<close>

definition store_extends :: "brk_device \<Rightarrow> brk_device \<Rightarrow> bool" where
  "store_extends brk brk' \<longleftrightarrow>
     set (brk_pages brk) \<subseteq> set (brk_pages brk') \<and>
     (\<forall>e \<in> set (brk_pages brk). page_at brk' (snd e) = page_at brk (snd e)) \<and>
     (\<forall>e \<in> set (brk_pages brk') - set (brk_pages brk).
        page_at brk' (snd e) = Some \<lparr>index = fst e, data = replicate PAGE_SIZE 0\<rparr>)"

text \<open>The page \<open>idx\<close> lies within the range of \<open>n\<close> bytes from \<open>sector\<close>, first byte to last.\<close>

definition page_covered :: "nat \<Rightarrow> nat \<Rightarrow> nat \<Rightarrow> bool" where
  "page_covered sector n idx \<longleftrightarrow>
     sector * 2 ^ SECTOR_SHIFT \<le> idx * PAGE_SIZE \<and>
     (idx + 1) * PAGE_SIZE \<le> sector * 2 ^ SECTOR_SHIFT + n"

text \<open>
  Zeroing \<open>k\<close> whole pages, one after the other: the page holding \<open>sector\<close>, then the page
  holding the sector one page length further, and so on.
\<close>

fun discard_pages :: "brk_device \<Rightarrow> nat \<Rightarrow> nat \<Rightarrow> fault + brk_device" where
  "discard_pages brk sector 0 = Inr brk"
| "discard_pages brk sector (Suc k) =
     bind_f (brk_zero_page brk sector)
       (\<lambda>brk'. discard_pages brk' ((sector + PAGE_SECTORS) mod ULONG_WRAP) k)"

text \<open>
  The calls that may sleep or allocate memory: \<^verbatim>\<open>crypto_alloc_hash\<close> looks the algorithm up
  under a semaphore, may load a module, and allocates the transform with \<^verbatim>\<open>GFP_KERNEL\<close>;
  \<^verbatim>\<open>kill_bdev\<close> truncates the page cache of the device. \<^verbatim>\<open>printk\<close>, the synchronous hash
  operations and \<^verbatim>\<open>crypto_free_hash\<close> do neither.
\<close>

definition may_sleep_or_allocate :: "kcall \<Rightarrow> bool" where
  "may_sleep_or_allocate c \<longleftrightarrow> c = Crypto_alloc_hash \<or> c = Kill_bdev"

text \<open>A device whose only page is page 1, filled with the byte \<^verbatim>\<open>'A'\<close>.\<close>

definition dev_page1 :: brk_device where
  "dev_page1 =
     \<lparr>brk_number = 0, brk_pages = [(1, 0)], capacity = 1024 * 2, bd_openers = 1,
      page_mem = [Some \<lparr>index = 1, data = replicate PAGE_SIZE 65\<rparr>], avail = [], klog = []\<rparr>"

text \<open>A device with the pages 0 and 1, both filled with the byte \<^verbatim>\<open>'A'\<close>.\<close>

definition dev_pages01 :: brk_device where
  "dev_pages01 =
     \<lparr>brk_number = 0, brk_pages = [(0, 0), (1, 1)], capacity = 1024 * 2, bd_openers = 1,
      page_mem = [Some \<lparr>index = 0, data = replicate PAGE_SIZE 65\<rparr>,
                  Some \<lparr>index = 1, data = replicate PAGE_SIZE 65\<rparr>],
      avail = [], klog = []\<rparr>"

text \<open>A discard request of 6144 bytes from sector 4, the middle of page 0.\<close>

definition bio_discard_4 :: bio where
  "bio_discard_4 =
     \<lparr>bi_sector = 4, bi_size = 6144, bi_rw = WRITE, bi_discard = True, bi_io_vec = []\<rparr>"


text \<open>A write request of 20 sectors from sector 2040.\<close>

definition bio_2040 :: bio where
  "bio_2040 =
     \<lparr>bi_sector = 2040, bi_size = 10240, bi_rw = WRITE, bi_discard = False,
      bi_io_vec = [\<lparr>bv_page = replicate 4096 66, bv_len = 4096, bv_offset = 0\<rparr>,
                   \<lparr>bv_page = replicate 4096 66, bv_len = 4096, bv_offset = 0\<rparr>,
                   \<lparr>bv_page = replicate 4096 66, bv_len = 2048, bv_offset = 0\<rparr>]\<rparr>"

text \<open>
  A device of seventeen pages, one more than a batch of \<^verbatim>\<open>brk_free_pages\<close>; page \<open>i\<close> is
  filled with the byte \<open>i\<close>.
\<close>

definition dev17 :: brk_device where
  "dev17 =
     \<lparr>brk_number = 0,
      brk_pages = map (\<lambda>i. (i, i)) [3, 0, 1, 2, 4, 5, 6, 7, 8, 9, 10, 11, 12, 13, 14, 15, 16],
      capacity = 1024 * 2, bd_openers = 1,
      page_mem = map (\<lambda>i. Some \<lparr>index = i, data = replicate PAGE_SIZE (of_nat i)\<rparr>)
                   [0, 1, 2, 3, 4, 5, 6, 7, 8, 9, 10, 11, 12, 13, 14, 15, 16],
      avail = [], klog = []\<rparr>"

section \<open>Arithmetic of sectors and pages\<close>

lemma offset_le: "(sector mod 8) * 512 \<le> (3584::nat)"
proof -
  have "sector mod 8 \<le> 7" by (simp add: Suc_leI flip: less_Suc_eq_le)
  then show ?thesis by simp
qed

lemma next_page_sector:
  "(sector::nat) + (4096 - (sector mod 8) * 512) div 512 = 8 * (sector div 8) + 8"
proof -
  have "(4096 - (sector mod 8) * 512) = (8 - sector mod 8) * 512"
    by (simp add: diff_mult_distrib)
  then have "(4096 - (sector mod 8) * 512) div 512 = 8 - sector mod 8"
    by simp
  moreover have "sector mod 8 < 8" by simp
  moreover have "sector = 8 * (sector div 8) + sector mod 8" by simp
  ultimately show ?thesis by linarith
qed

lemma splice_splice:
  "doff + length a + length b \<le> length dst \<Longrightarrow>
   splice (splice dst doff a) (doff + length a) b = splice dst doff (a @ b)"
  by (auto simp: splice_def ac_simps)

lemma length_splice [simp]:
  "doff + length bytes \<le> length dst \<Longrightarrow> length (splice dst doff bytes) = length dst"
  by (simp add: splice_def)

lemma memset_splice:
  "doff + n \<le> length dst \<Longrightarrow> memset dst doff c n = Inr (splice dst doff (replicate n c))"
  by (simp add: memset_def splice_def)

lemma memcpy_splice:
  "soff + n \<le> length src \<Longrightarrow> doff + n \<le> length dst \<Longrightarrow>
   memcpy dst doff src soff n = Inr (splice dst doff (take n (drop soff src)))"
  by (simp add: memcpy_def splice_def)

lemma brk_lookup_page_absent:
  "radix_tree_lookup (brk_pages brk) (sector div 8) = None \<Longrightarrow> brk_lookup_page brk sector = Inr None"
  by (simp add: brk_lookup_page_def sector_index_eq)

lemma page_touched_first: "0 < n \<Longrightarrow> page_touched sector n (sector div 8)"
proof -
  assume n: "0 < n"
  have "sector * 512 div (512 * 8) = sector * 512 div 512 div 8"
    by (rule div_mult2_eq)
  then have "sector * 512 div 4096 = sector div 8"
    by simp
  moreover from n have "sector * 512 \<le> sector * 512 + n - 1" by simp
  then have "sector * 512 div 4096 \<le> (sector * 512 + n - 1) div 4096"
    by (rule div_le_mono)
  ultimately show ?thesis
    using n by (simp add: page_touched_def SECTOR_SHIFT_def PAGE_SIZE_eq)
qed

lemma sector_bytes_div: "(sector::nat) * 512 div 4096 = sector div 8"
proof -
  have "sector * 512 div (512 * 8) = sector * 512 div 512 div 8"
    by (rule div_mult2_eq)
  then show ?thesis by simp
qed

lemma second_page_arith:
  "4096 - b < n \<Longrightarrow> s = 4096 * a + b \<Longrightarrow> b \<le> 3584 \<Longrightarrow> 4096 * (a + 1) \<le> s + n - (1::nat)"
  by simp

lemma page_touched_second:
  assumes "4096 - (sector mod 8) * 512 < n"
  shows "page_touched sector n (sector div 8 + 1)"
proof -
  have "sector * 512 = (8 * (sector div 8) + sector mod 8) * 512"
    by (simp only: mult_div_mod_eq)
  then have s: "sector * 512 = 4096 * (sector div 8) + (sector mod 8) * 512"
    by (simp only: add_mult_distrib mult.assoc)
  have "(sector mod 8) * 512 \<le> 3584" by (rule offset_le)
  with assms s have "4096 * (sector div 8 + 1) \<le> sector * 512 + n - 1"
    by (intro second_page_arith)
  then have "4096 * (sector div 8 + 1) div 4096 \<le> (sector * 512 + n - 1) div 4096"
    by (rule div_le_mono)
  then have "sector div 8 + 1 \<le> (sector * 512 + n - 1) div 4096"
    by simp
  moreover from assms have "0 < n" by simp
  ultimately show ?thesis
    by (simp add: page_touched_def SECTOR_SHIFT_def PAGE_SIZE_eq sector_bytes_div)
qed

lemma crossing_sector:
  assumes "in_capacity brk sector n" and "4096 - (sector mod 8) * 512 < n"
  shows "(sector + (4096 - (sector mod 8) * 512) div 512) mod ULONG_WRAP = 8 * (sector div 8) + 8"
proof -
  have "(4096 - (sector mod 8) * 512) div 512 \<le> n div 512"
    using assms(2) by (intro div_le_mono) simp
  with assms(1) have "sector + (4096 - (sector mod 8) * 512) div 512 < ULONG_WRAP"
    by (simp add: in_capacity_def bytes_to_sectors_eq)
  then show ?thesis
    by (simp add: next_page_sector)
qed

lemma copy_from_brk_eq:
  "copy_from_brk dst doff brk sector n =
     (let offset = (sector mod 8) * 512;
          copy = min n (4096 - offset)
      in bind_f (brk_lookup_page brk sector) (\<lambda>page.
         bind_f (case page of
                   Some p \<Rightarrow>
                     (case page_at brk p of
                        None \<Rightarrow> Inl Bad_access
                      | Some pg \<Rightarrow> memcpy dst doff (data pg) offset copy)
                 | None \<Rightarrow> memset dst doff 0 copy) (\<lambda>dst1.
         if copy < n
         then bind_f (brk_lookup_page brk ((sector + copy div 512) mod ULONG_WRAP)) (\<lambda>page.
                  case page of
                    Some p \<Rightarrow>
                      (case page_at brk p of
                         None \<Rightarrow> Inl Bad_access
                       | Some pg \<Rightarrow> memcpy dst1 (doff + copy) (data pg) 0 (n - copy))
                  | None \<Rightarrow> memset dst1 (doff + copy) 0 (n - copy))
         else Inr dst1)))"
  by (simp only: copy_from_brk_def sector_offset_eq bytes_to_sectors_eq PAGE_SIZE_eq Let_def)

section \<open>The page store and its invariant\<close>

lemma page_at_set_page:
  "page_at (set_page brk p pg) q =
     (if q = p \<and> p < length (page_mem brk) then Some pg else page_at brk q)"
  by (simp add: page_at_def set_page_def)

lemma page_at_free_page:
  "page_at (free_page brk p) q = (if q = p then None else page_at brk q)"
  by (simp add: page_at_def free_page_def)

lemma page_at_kcalls [simp]: "page_at (kcalls cs brk) q = page_at brk q"
  by (simp add: page_at_def kcalls_def)

lemma brk_pages_set_page [simp]: "brk_pages (set_page brk p pg) = brk_pages brk"
  by (simp add: set_page_def)

lemma brk_pages_free_page [simp]: "brk_pages (free_page brk p) = brk_pages brk"
  by (simp add: free_page_def)

lemma brk_pages_kcalls [simp]: "brk_pages (kcalls cs brk) = brk_pages brk"
  by (simp add: kcalls_def)

lemma page_at_brk_pages_update [simp]: "page_at (brk\<lparr>brk_pages := t\<rparr>) q = page_at brk q"
  by (simp add: page_at_def)

lemma page_at_avail_update [simp]: "page_at (brk\<lparr>avail := a\<rparr>) q = page_at brk q"
  by (simp add: page_at_def)

lemma tree_okD:
  assumes "tree_ok brk" and "map_of (brk_pages brk) idx = Some p"
  obtains pg where "page_at brk p = Some pg" and "index pg = idx" and "length (data pg) = PAGE_SIZE"
proof -
  from assms(2) have "(idx, p) \<in> set (brk_pages brk)"
    by (rule map_of_SomeD)
  moreover from assms(1) have "\<forall>e \<in> set (brk_pages brk).
        case page_at brk (snd e) of
          None \<Rightarrow> False
        | Some pg \<Rightarrow> index pg = fst e \<and> length (data pg) = PAGE_SIZE"
    by (simp add: tree_ok_def)
  ultimately have "case page_at brk (snd (idx, p)) of None \<Rightarrow> False
      | Some pg \<Rightarrow> index pg = fst (idx, p) \<and> length (data pg) = PAGE_SIZE"
    by blast
  then show thesis
    using that by (cases "page_at brk p") simp_all
qed

lemma brk_lookup_page_eq:
  "brk_lookup_page brk sector =
     (case map_of (brk_pages brk) (sector div 8) of
        None \<Rightarrow> Inr None
      | Some p \<Rightarrow>
          (case page_at brk p of
             None \<Rightarrow> Inl Bad_access
           | Some pg \<Rightarrow> if index pg \<noteq> sector div 8 then Inl (BUG 85) else Inr (Some p)))"
  by (simp add: brk_lookup_page_def sector_index_eq radix_tree_lookup_def Let_def)

lemma brk_lookup_page_ok:
  "tree_ok brk \<Longrightarrow> brk_lookup_page brk sector = Inr (map_of (brk_pages brk) (sector div 8))"
proof (cases "map_of (brk_pages brk) (sector div 8)")
  case None
  then show ?thesis by (simp add: brk_lookup_page_eq)
next
  case (Some p)
  assume "tree_ok brk"
  from this Some obtain pg where "page_at brk p = Some pg" "index pg = sector div 8"
    by (rule tree_okD)
  with Some show ?thesis by (simp add: brk_lookup_page_eq)
qed

lemma brk_lookup_page_SomeD:
  assumes "brk_lookup_page brk sector = Inr (Some p)"
  obtains pg where "map_of (brk_pages brk) (sector div 8) = Some p"
    and "page_at brk p = Some pg" and "index pg = sector div 8"
  using assms by (auto simp: brk_lookup_page_eq split: option.splits if_splits)

lemma tree_ok_inj:
  assumes "tree_ok brk" and "map_of (brk_pages brk) i = Some p" and "map_of (brk_pages brk) j = Some p"
  shows "i = j"
proof -
  from assms(1,2) obtain pg where "page_at brk p = Some pg" "index pg = i" by (rule tree_okD)
  moreover from assms(1,3) obtain pg' where "page_at brk p = Some pg'" "index pg' = j" by (rule tree_okD)
  ultimately show ?thesis by simp
qed

lemma brk_insert_page_present:
  assumes "tree_ok brk" and "map_of (brk_pages brk) (sector div 8) = Some p"
  shows "brk_insert_page brk sector = Inr (Some p, brk)"
  using assms by (simp add: brk_insert_page_def brk_lookup_page_ok)

lemma brk_insert_page_alloc_fails:
  assumes "map_of (brk_pages brk) (sector div 8) = None" and "avail brk = [] \<or> \<not> hd (avail brk)"
  shows "brk_insert_page brk sector = Inr (None, brk\<lparr>avail := tl (avail brk)\<rparr>)"
  using assms
  by (cases "avail brk") (auto simp: brk_insert_page_def brk_lookup_page_eq alloc_page_def)

lemma brk_insert_page_preload_fails:
  assumes "map_of (brk_pages brk) (sector div 8) = None" and "avail brk = True # r"
    and "r = [] \<or> \<not> hd r"
  shows "brk_insert_page brk sector =
           Inr (None, brk\<lparr>avail := tl r, page_mem := page_mem brk @ [None]\<rparr>)"
  using assms
  by (cases r) (auto simp: brk_insert_page_def brk_lookup_page_eq alloc_page_def
      radix_tree_preload_def free_page_def)

lemma brk_insert_page_new:
  assumes "map_of (brk_pages brk) (sector div 8) = None" and "avail brk = True # True # r"
  shows "brk_insert_page brk sector =
           Inr (Some (length (page_mem brk)),
                brk\<lparr>avail := r,
                    page_mem := page_mem brk
                      @ [Some \<lparr>index = sector div 8, data = replicate PAGE_SIZE 0\<rparr>],
                    brk_pages := (sector div 8, length (page_mem brk)) # brk_pages brk\<rparr>)"
  using assms
  by (simp add: brk_insert_page_def brk_lookup_page_eq alloc_page_def
      radix_tree_preload_def brk_insert_locked_def page_at_def set_page_def
      radix_tree_insert_def sector_index_eq)

lemma no_leak_iff:
  "no_leak brk \<longleftrightarrow> (\<forall>p. page_at brk p \<noteq> None \<longrightarrow> p \<in> snd ` set (brk_pages brk))"
  by (auto simp: no_leak_def page_at_def)

lemma store_inv_iff:
  "store_inv brk \<longleftrightarrow>
     distinct (map fst (brk_pages brk)) \<and>
     (\<forall>i p. (i, p) \<in> set (brk_pages brk) \<longrightarrow>
        (\<exists>pg. page_at brk p = Some pg \<and> index pg = i \<and> length (data pg) = PAGE_SIZE)) \<and>
     (\<forall>p. page_at brk p \<noteq> None \<longrightarrow> p \<in> snd ` set (brk_pages brk))"
  unfolding store_inv_def no_leak_iff tree_ok_def
  by (auto split: option.splits) force+

lemma page_at_append:
  "page_at (brk\<lparr>page_mem := page_mem brk @ [x]\<rparr>) q =
     (if q = length (page_mem brk) then x else page_at brk q)"
  by (auto simp: page_at_def nth_append)

lemma page_at_length [simp]: "page_at brk (length (page_mem brk)) = None"
  by (simp add: page_at_def)

lemma store_inv_cong:
  "brk_pages brk' = brk_pages brk \<Longrightarrow> page_mem brk' = page_mem brk \<Longrightarrow>
   store_inv brk' = store_inv brk"
  by (simp add: store_inv_def tree_ok_def no_leak_def page_at_def)

lemma store_inv_fresh_not_in_tree:
  assumes "store_inv brk"
  shows "length (page_mem brk) \<notin> snd ` set (brk_pages brk)"
proof
  assume "length (page_mem brk) \<in> snd ` set (brk_pages brk)"
  then obtain i where "(i, length (page_mem brk)) \<in> set (brk_pages brk)"
    by auto
  with assms obtain pg where "page_at brk (length (page_mem brk)) = Some pg"
    unfolding store_inv_iff by blast
  then show False by simp
qed

lemma store_inv_append_None:
  assumes "store_inv brk"
  shows "store_inv (brk\<lparr>avail := a, page_mem := page_mem brk @ [None]\<rparr>)"
proof -
  have eq: "\<And>q. page_at (brk\<lparr>avail := a, page_mem := page_mem brk @ [None]\<rparr>) q = page_at brk q"
    by (auto simp: page_at_def nth_append)
  from assms show ?thesis
    unfolding store_inv_iff eq by simp
qed

lemma store_inv_new:
  assumes inv: "store_inv brk" and absent: "map_of (brk_pages brk) idx = None"
  shows "store_inv (brk\<lparr>avail := a,
            page_mem := page_mem brk @ [Some \<lparr>index = idx, data = replicate PAGE_SIZE 0\<rparr>],
            brk_pages := (idx, length (page_mem brk)) # brk_pages brk\<rparr>)"
    (is "store_inv ?brk'")
proof -
  have pa: "\<And>q. page_at ?brk' q =
      (if q = length (page_mem brk)
       then Some \<lparr>index = idx, data = replicate PAGE_SIZE 0\<rparr> else page_at brk q)"
    by (auto simp: page_at_def nth_append)
  have fresh: "length (page_mem brk) \<notin> snd ` set (brk_pages brk)"
    using inv by (rule store_inv_fresh_not_in_tree)
  from absent have nk: "idx \<notin> fst ` set (brk_pages brk)"
    by (simp add: map_of_eq_None_iff)
  from inv have d: "distinct (map fst (brk_pages brk))"
    and v: "\<And>i p. (i, p) \<in> set (brk_pages brk) \<Longrightarrow>
        \<exists>pg. page_at brk p = Some pg \<and> index pg = i \<and> length (data pg) = PAGE_SIZE"
    and l: "\<And>p. page_at brk p \<noteq> None \<Longrightarrow> p \<in> snd ` set (brk_pages brk)"
    unfolding store_inv_iff by blast+
  show ?thesis
    unfolding store_inv_iff pa
  proof (intro conjI allI impI)
    show "distinct (map fst (brk_pages ?brk'))"
      using d nk by simp
  next
    fix i p assume "(i, p) \<in> set (brk_pages ?brk')"
    then consider "i = idx" "p = length (page_mem brk)" | "(i, p) \<in> set (brk_pages brk)"
      by auto
    then show "\<exists>pg. (if p = length (page_mem brk)
        then Some \<lparr>index = idx, data = replicate PAGE_SIZE 0\<rparr> else page_at brk p) = Some pg
        \<and> index pg = i \<and> length (data pg) = PAGE_SIZE"
    proof cases
      case 1
      then show ?thesis by simp
    next
      case 2
      with fresh have "p \<noteq> length (page_mem brk)" by force
      with v [OF 2] show ?thesis by simp
    qed
  next
    fix p assume "(if p = length (page_mem brk)
        then Some \<lparr>index = idx, data = replicate PAGE_SIZE 0\<rparr> else page_at brk p) \<noteq> None"
    then consider "p = length (page_mem brk)" | "page_at brk p \<noteq> None"
      by (auto split: if_splits)
    then show "p \<in> snd ` set (brk_pages ?brk')"
    proof cases
      case 1
      then show ?thesis by simp
    next
      case 2
      from l [OF 2] show ?thesis by auto
    qed
  qed
qed

lemma store_extends_refl: "store_extends brk brk"
  by (simp add: store_extends_def)

lemma store_extends_trans:
  assumes "store_extends a b" and "store_extends b c"
  shows "store_extends a c"
  unfolding store_extends_def
proof (intro conjI ballI)
  show "set (brk_pages a) \<subseteq> set (brk_pages c)"
    using assms unfolding store_extends_def by blast
next
  fix e assume "e \<in> set (brk_pages a)"
  moreover from this assms(1) have "e \<in> set (brk_pages b)"
    unfolding store_extends_def by blast
  ultimately show "page_at c (snd e) = page_at a (snd e)"
    using assms unfolding store_extends_def by simp
next
  fix e assume e: "e \<in> set (brk_pages c) - set (brk_pages a)"
  show "page_at c (snd e) = Some \<lparr>index = fst e, data = replicate PAGE_SIZE 0\<rparr>"
  proof (cases "e \<in> set (brk_pages b)")
    case True
    with e have "e \<in> set (brk_pages b) - set (brk_pages a)" by simp
    with assms(1) have "page_at b (snd e) = Some \<lparr>index = fst e, data = replicate PAGE_SIZE 0\<rparr>"
      unfolding store_extends_def by blast
    moreover from True assms(2) have "page_at c (snd e) = page_at b (snd e)"
      unfolding store_extends_def by blast
    ultimately show ?thesis by simp
  next
    case False
    with e have "e \<in> set (brk_pages c) - set (brk_pages b)" by simp
    with assms(2) show ?thesis
      unfolding store_extends_def by blast
  qed
qed

lemma store_extends_same:
  "brk_pages brk' = brk_pages brk \<Longrightarrow> (\<And>q. page_at brk' q = page_at brk q) \<Longrightarrow>
   store_extends brk brk'"
  by (simp add: store_extends_def)

text \<open>What \<^verbatim>\<open>brk_insert_page\<close> does to a well-formed store, whatever the allocator answers.\<close>

lemma brk_insert_page_spec:
  assumes inv: "store_inv brk"
  shows "\<exists>r brk'. brk_insert_page brk sector = Inr (r, brk') \<and> store_inv brk' \<and>
           store_extends brk brk' \<and> capacity brk' = capacity brk \<and>
           r = map_of (brk_pages brk') (sector div 8) \<and>
           (r = None \<longrightarrow> brk_pages brk' = brk_pages brk)"
proof (cases "map_of (brk_pages brk) (sector div 8)")
  case (Some p)
  from inv have "tree_ok brk" by (simp add: store_inv_def)
  from brk_insert_page_present [OF this Some] inv Some show ?thesis
    by (simp add: store_extends_refl)
next
  case None
  show ?thesis
  proof (cases "avail brk = [] \<or> \<not> hd (avail brk)")
    case True
    have "store_inv (brk\<lparr>avail := tl (avail brk)\<rparr>)"
      using inv by (simp add: store_inv_cong [of "brk\<lparr>avail := tl (avail brk)\<rparr>" brk])
    moreover have "store_extends brk (brk\<lparr>avail := tl (avail brk)\<rparr>)"
      by (rule store_extends_same) simp_all
    ultimately show ?thesis
      using brk_insert_page_alloc_fails [OF None True] None by simp
  next
    case False
    then obtain r where a: "avail brk = True # r"
      by (cases "avail brk") auto
    show ?thesis
    proof (cases "r = [] \<or> \<not> hd r")
      case True
      let ?brk' = "brk\<lparr>avail := tl r, page_mem := page_mem brk @ [None]\<rparr>"
      have "store_inv ?brk'"
        using inv by (rule store_inv_append_None)
      moreover have "store_extends brk ?brk'"
        by (rule store_extends_same) (auto simp: page_at_def nth_append)
      ultimately show ?thesis
        using brk_insert_page_preload_fails [OF None a True] None by simp
    next
      case False
      then obtain r' where r: "r = True # r'"
        by (cases r) auto
      let ?p = "length (page_mem brk)"
      let ?brk' = "brk\<lparr>avail := r',
            page_mem := page_mem brk @ [Some \<lparr>index = sector div 8, data = replicate PAGE_SIZE 0\<rparr>],
            brk_pages := (sector div 8, ?p) # brk_pages brk\<rparr>"
      have i: "store_inv ?brk'"
        using inv None by (rule store_inv_new)
      have fresh: "?p \<notin> snd ` set (brk_pages brk)"
        using inv by (rule store_inv_fresh_not_in_tree)
      have nk: "sector div 8 \<notin> fst ` set (brk_pages brk)"
        using None by (simp add: map_of_eq_None_iff)
      have pa: "\<And>q. page_at ?brk' q =
          (if q = ?p then Some \<lparr>index = sector div 8, data = replicate PAGE_SIZE 0\<rparr>
           else page_at brk q)"
        by (auto simp: page_at_def nth_append)
      have "store_extends brk ?brk'"
        unfolding store_extends_def pa
      proof (intro conjI ballI)
        show "set (brk_pages brk) \<subseteq> set (brk_pages ?brk')" by auto
      next
        fix e assume "e \<in> set (brk_pages brk)"
        with fresh have "snd e \<noteq> ?p" by force
        then show "(if snd e = ?p then Some \<lparr>index = sector div 8, data = replicate PAGE_SIZE 0\<rparr>
           else page_at brk (snd e)) = page_at brk (snd e)" by simp
      next
        fix e assume "e \<in> set (brk_pages ?brk') - set (brk_pages brk)"
        then have "e = (sector div 8, ?p)" by auto
        then show "(if snd e = ?p then Some \<lparr>index = sector div 8, data = replicate PAGE_SIZE 0\<rparr>
           else page_at brk (snd e)) = Some \<lparr>index = fst e, data = replicate PAGE_SIZE 0\<rparr>"
          by simp
      qed
      with i show ?thesis
        using brk_insert_page_new [OF None a [unfolded r]] by simp
    qed
  qed
qed

section \<open>Preparing a write\<close>

lemma crosses_page_eq: "crosses_page sector n \<longleftrightarrow> 4096 - (sector mod 8) * 512 < n"
  by (simp only: crosses_page_def sector_offset_eq PAGE_SIZE_eq)

lemma single_crossing_eq: "single_crossing sector n \<longleftrightarrow> (sector mod 8) * 512 + n \<le> 8192"
  by (simp only: single_crossing_def sector_offset_eq PAGE_SIZE_eq) simp

lemma copy_to_brk_setup_eq:
  "copy_to_brk_setup brk sector n =
     bind_f (brk_insert_page brk sector) (\<lambda>(page, brk1).
       if page = None then Inr (- ENOSPC, brk1)
       else if crosses_page sector n
       then bind_f (brk_insert_page brk1
                     ((sector + (4096 - (sector mod 8) * 512) div 512) mod ULONG_WRAP))
              (\<lambda>(page, brk2). if page = None then Inr (- ENOSPC, brk2) else Inr (0, brk2))
       else Inr (0, brk1))"
proof -
  have "min n (4096 - (sector mod 8) * 512) < n \<longleftrightarrow> 4096 - (sector mod 8) * 512 < n"
    by (simp only: min_less_iff_disj less_irrefl simp_thms)
  moreover have "4096 - (sector mod 8) * 512 < n \<Longrightarrow>
      min n (4096 - (sector mod 8) * 512) = 4096 - (sector mod 8) * 512"
    by (simp only: min_def) (simp only: not_le [symmetric] if_False)
  ultimately show ?thesis
    unfolding copy_to_brk_setup_def sector_offset_eq bytes_to_sectors_eq PAGE_SIZE_eq Let_def
      crosses_page_eq
    by (simp cong del: if_weak_cong cong: if_cong)
qed

lemma nat_between_two: "a \<le> idx \<Longrightarrow> idx \<le> k \<Longrightarrow> k < a + 2 \<Longrightarrow> idx = a \<or> idx = a + (1::nat)"
  by linarith

lemma nat_between_one: "a \<le> idx \<Longrightarrow> idx \<le> k \<Longrightarrow> k < a + 1 \<Longrightarrow> idx = (a::nat)"
  by linarith

lemma touched_single_crossing:
  assumes "single_crossing sector n" and "page_touched sector n idx"
  shows "idx = sector div 8 \<or> (crosses_page sector n \<and> idx = sector div 8 + 1)"
proof -
  let ?off = "(sector mod 8) * 512"
  have s: "sector * 512 = 4096 * (sector div 8) + ?off"
  proof -
    have "sector * 512 = (8 * (sector div 8) + sector mod 8) * 512"
      by (simp only: mult_div_mod_eq)
    then show ?thesis by (simp only: add_mult_distrib mult.assoc)
  qed
  from assms(2) have n: "0 < n" and lo: "sector div 8 \<le> idx"
    and hi: "idx \<le> (sector * 512 + n - 1) div 4096"
    by (simp_all add: page_touched_def SECTOR_SHIFT_def PAGE_SIZE_eq sector_bytes_div)
  from assms(1) have sc: "?off + n \<le> 8192"
    by (simp add: single_crossing_eq)
  show ?thesis
  proof (cases "crosses_page sector n")
    case True
    have "sector * 512 + n - 1 < 4096 * (sector div 8 + 2)"
      using s sc n by simp
    then have "(sector * 512 + n - 1) div 4096 < sector div 8 + 2"
      by (simp add: div_less_iff_less_mult mult.commute)
    with lo hi have "idx = sector div 8 \<or> idx = sector div 8 + 1"
      by (rule nat_between_two)
    with True show ?thesis by simp
  next
    case False
    then have "?off + n \<le> 4096"
      using offset_le [of sector] by (simp add: crosses_page_eq)
    then have "sector * 512 + n - 1 < 4096 * (sector div 8 + 1)"
      using s n by simp
    then have "(sector * 512 + n - 1) div 4096 < sector div 8 + 1"
      by (simp add: div_less_iff_less_mult mult.commute)
    with lo hi have "idx = sector div 8"
      by (rule nat_between_one)
    then show ?thesis by simp
  qed
qed

lemma crossing_sector':
  assumes "in_capacity brk sector n" and "crosses_page sector n"
  shows "(sector + (4096 - (sector mod 8) * 512) div 512) mod ULONG_WRAP = 8 * (sector div 8 + 1)"
  using crossing_sector [OF assms(1)] assms(2) by (simp add: crosses_page_eq)

lemma in_capacity_cong: "capacity brk' = capacity brk \<Longrightarrow> in_capacity brk' = in_capacity brk"
  by (simp add: in_capacity_def fun_eq_iff)

lemma store_extends_lookup:
  assumes "store_extends brk brk'" and "tree_ok brk"
    and "map_of (brk_pages brk) idx = Some p"
  shows "(idx, p) \<in> set (brk_pages brk')" and "page_at brk' p = page_at brk p"
proof -
  from assms(3) have "(idx, p) \<in> set (brk_pages brk)" by (rule map_of_SomeD)
  with assms(1) show "(idx, p) \<in> set (brk_pages brk')" and "page_at brk' p = page_at brk p"
    unfolding store_extends_def by auto
qed

text \<open>What \<^verbatim>\<open>copy_to_brk_setup\<close> does to a well-formed store, whatever the allocator answers.\<close>

lemma copy_to_brk_setup_spec:
  assumes inv: "store_inv brk" and cap: "in_capacity brk sector n"
  shows "\<exists>err brk'. copy_to_brk_setup brk sector n = Inr (err, brk') \<and>
           (err = 0 \<or> err = - ENOSPC) \<and>
           store_inv brk' \<and> store_extends brk brk' \<and> capacity brk' = capacity brk \<and>
           (err = 0 \<longleftrightarrow>
              map_of (brk_pages brk') (sector div 8) \<noteq> None \<and>
              (crosses_page sector n \<longrightarrow> map_of (brk_pages brk') (sector div 8 + 1) \<noteq> None))"
proof -
  from brk_insert_page_spec [OF inv, of sector] obtain r1 brk1 where
    i1: "brk_insert_page brk sector = Inr (r1, brk1)" and inv1: "store_inv brk1"
    and ext1: "store_extends brk brk1" and cap1: "capacity brk1 = capacity brk"
    and r1: "r1 = map_of (brk_pages brk1) (sector div 8)"
    by blast
  show ?thesis
  proof (cases r1)
    case None
    with i1 inv1 ext1 cap1 r1 show ?thesis
      by (simp add: copy_to_brk_setup_eq ENOSPC_def)
  next
    case (Some p)
    show ?thesis
    proof (cases "crosses_page sector n")
      case False
      with Some i1 inv1 ext1 cap1 r1 show ?thesis
        by (simp add: copy_to_brk_setup_eq ENOSPC_def)
    next
      case True
      let ?s' = "(sector + (4096 - (sector mod 8) * 512) div 512) mod ULONG_WRAP"
      have s': "?s' div 8 = sector div 8 + 1"
        using crossing_sector' [OF cap True] by simp
      from brk_insert_page_spec [OF inv1, of ?s'] obtain r2 brk2 where
        i2: "brk_insert_page brk1 ?s' = Inr (r2, brk2)" and inv2: "store_inv brk2"
        and ext2: "store_extends brk1 brk2" and cap2: "capacity brk2 = capacity brk1"
        and r2: "r2 = map_of (brk_pages brk2) (sector div 8 + 1)"
        unfolding s' by blast
      have ext: "store_extends brk brk2"
        using ext1 ext2 by (rule store_extends_trans)
      have t1: "tree_ok brk1" and t2: "tree_ok brk2"
        using inv1 inv2 by (simp_all add: store_inv_def)
      from Some r1 have "map_of (brk_pages brk1) (sector div 8) = Some p"
        by simp
      with ext2 t1 have "(sector div 8, p) \<in> set (brk_pages brk2)"
        by (rule store_extends_lookup)
      moreover from t2 have "distinct (map fst (brk_pages brk2))"
        by (simp add: tree_ok_def)
      ultimately have first: "map_of (brk_pages brk2) (sector div 8) = Some p"
        by simp
      have res: "copy_to_brk_setup brk sector n =
          Inr (if r2 = None then - ENOSPC else 0, brk2)"
        using i1 i2 Some True by (simp add: copy_to_brk_setup_eq)
      show ?thesis
        unfolding res using inv2 ext cap1 cap2 first r2 True
        by (auto simp: ENOSPC_def)
    qed
  qed
qed

section \<open>Writing and reading back\<close>

lemma copy_to_brk_eq:
  "copy_to_brk brk src soff sector n =
     bind_f (brk_lookup_page brk sector) (\<lambda>page.
       case page of
         None \<Rightarrow> Inl (BUG 260)
       | Some p \<Rightarrow>
           bind_f (memcpy_to_page (kcalls digest_calls brk) p ((sector mod 8) * 512) src soff
                     (min n (4096 - (sector mod 8) * 512))) (\<lambda>brk1.
           if crosses_page sector n
           then bind_f (brk_lookup_page brk1
                          ((sector + (4096 - (sector mod 8) * 512) div 512) mod ULONG_WRAP))
                  (\<lambda>page.
                    case page of
                      None \<Rightarrow> Inl (BUG 295)
                    | Some q \<Rightarrow>
                        memcpy_to_page brk1 q 0 src (soff + (4096 - (sector mod 8) * 512))
                          (n - (4096 - (sector mod 8) * 512)))
           else Inr brk1))"
proof -
  have a: "min n (4096 - (sector mod 8) * 512) < n \<longleftrightarrow> 4096 - (sector mod 8) * 512 < n"
    by (simp only: min_less_iff_disj less_irrefl simp_thms)
  have b: "4096 - (sector mod 8) * 512 < n \<Longrightarrow>
      min n (4096 - (sector mod 8) * 512) = 4096 - (sector mod 8) * 512"
    by (simp only: min_def) (simp only: not_le [symmetric] if_False)
  show ?thesis
  proof (cases "crosses_page sector n")
    case True
    then have c: "4096 - (sector mod 8) * 512 < n" by (simp only: crosses_page_eq)
    show ?thesis
      unfolding copy_to_brk_def sector_offset_eq bytes_to_sectors_eq PAGE_SIZE_eq Let_def
        crosses_page_eq a b [OF c]
      by (simp only: c if_True)
  next
    case False
    then have c: "(4096 - (sector mod 8) * 512 < n) = False" by (simp only: crosses_page_eq)
    show ?thesis
      unfolding copy_to_brk_def sector_offset_eq bytes_to_sectors_eq PAGE_SIZE_eq Let_def
        crosses_page_eq a c
      by (simp only: if_False)
  qed
qed

lemma copy_from_brk_eq':
  "copy_from_brk dst doff brk sector n =
     bind_f (brk_lookup_page brk sector) (\<lambda>page.
     bind_f (case page of
               Some p \<Rightarrow>
                 (case page_at brk p of
                    None \<Rightarrow> Inl Bad_access
                  | Some pg \<Rightarrow> memcpy dst doff (data pg) ((sector mod 8) * 512)
                                 (min n (4096 - (sector mod 8) * 512)))
             | None \<Rightarrow> memset dst doff 0 (min n (4096 - (sector mod 8) * 512))) (\<lambda>dst1.
     if crosses_page sector n
     then bind_f (brk_lookup_page brk
                    ((sector + (4096 - (sector mod 8) * 512) div 512) mod ULONG_WRAP)) (\<lambda>page.
              case page of
                Some p \<Rightarrow>
                  (case page_at brk p of
                     None \<Rightarrow> Inl Bad_access
                   | Some pg \<Rightarrow> memcpy dst1 (doff + (4096 - (sector mod 8) * 512)) (data pg) 0
                                  (n - (4096 - (sector mod 8) * 512)))
              | None \<Rightarrow> memset dst1 (doff + (4096 - (sector mod 8) * 512)) 0
                          (n - (4096 - (sector mod 8) * 512)))
     else Inr dst1))"
proof -
  have a: "min n (4096 - (sector mod 8) * 512) < n \<longleftrightarrow> 4096 - (sector mod 8) * 512 < n"
    by (simp only: min_less_iff_disj less_irrefl simp_thms)
  have b: "4096 - (sector mod 8) * 512 < n \<Longrightarrow>
      min n (4096 - (sector mod 8) * 512) = 4096 - (sector mod 8) * 512"
    by (simp only: min_def) (simp only: not_le [symmetric] if_False)
  show ?thesis
  proof (cases "crosses_page sector n")
    case True
    then have c: "4096 - (sector mod 8) * 512 < n" by (simp only: crosses_page_eq)
    show ?thesis
      unfolding copy_from_brk_eq Let_def crosses_page_eq a b [OF c]
      by (simp only: c if_True)
  next
    case False
    then have c: "(4096 - (sector mod 8) * 512 < n) = False" by (simp only: crosses_page_eq)
    show ?thesis
      unfolding copy_from_brk_eq Let_def crosses_page_eq a c
      by (simp only: if_False)
  qed
qed

lemma memcpy_to_page_InrE:
  assumes "memcpy_to_page brk p doff src soff n = Inr brk'"
  obtains pg where "page_at brk p = Some pg" and "soff + n \<le> length src"
    and "doff + n \<le> length (data pg)"
    and "brk' = set_page brk p (pg\<lparr>data := splice (data pg) doff (take n (drop soff src))\<rparr>)"
  using assms
  by (auto simp: memcpy_to_page_def memcpy_def splice_def split: option.splits if_splits)

lemma memcpy_to_page_ok:
  assumes "page_at brk p = Some pg" and "soff + n \<le> length src"
    and "doff + n \<le> length (data pg)"
  shows "memcpy_to_page brk p doff src soff n =
           Inr (set_page brk p (pg\<lparr>data := splice (data pg) doff (take n (drop soff src))\<rparr>))"
  using assms by (simp add: memcpy_to_page_def memcpy_def splice_def)

lemma take_drop_splice:
  "doff + length x \<le> length d \<Longrightarrow> take (length x) (drop doff (splice d doff x)) = x"
  by (simp add: splice_def)

lemma page_mem_kcalls [simp]: "page_mem (kcalls cs brk) = page_mem brk"
  by (simp add: kcalls_def)

lemma bind_f_Inr_right: "bind_f m Inr = m"
  by (cases m) simp_all

lemma bind_f_InrE:
  assumes "bind_f m f = Inr y"
  obtains x where "m = Inr x" and "f x = Inr y"
  using assms by (cases m) simp_all

lemma read_back_page:
  assumes "off + c \<le> length d" and "length x = c" and "doff + c \<le> length dst"
  shows "memcpy dst doff (splice d off x) off c = Inr (splice dst doff x)"
proof -
  have "length (splice d off x) = length d"
    using assms by (intro length_splice) simp
  with assms have "memcpy dst doff (splice d off x) off c
      = Inr (splice dst doff (take c (drop off (splice d off x))))"
    by (intro memcpy_splice) simp_all
  moreover have "take (length x) (drop off (splice d off x)) = x"
    using assms by (intro take_drop_splice) simp
  ultimately show ?thesis
    using assms(2) by simp
qed

lemma add_le_trans: "c \<le> n \<Longrightarrow> doff + n \<le> l \<Longrightarrow> doff + c \<le> (l::nat)"
  by simp

lemma splice_two_parts:
  assumes "c \<le> n" and "doff + n \<le> length dst" and "length x1 = c" and "length x2 = n - c"
  shows "splice (splice dst doff x1) (doff + c) x2 = splice dst doff (x1 @ x2)"
proof -
  have "doff + length x1 + length x2 \<le> length dst"
    using assms by simp
  then have "splice (splice dst doff x1) (doff + length x1) x2 = splice dst doff (x1 @ x2)"
    by (rule splice_splice)
  then show ?thesis
    using assms(3) by simp
qed

lemma take_two_parts:
  assumes "c \<le> n"
  shows "take c (drop soff src) @ take (n - c) (drop (soff + c) src) = take n (drop soff src)"
proof -
  have "take (c + (n - c)) (drop soff src)
      = take c (drop soff src) @ take (n - c) (drop c (drop soff src))"
    by (rule take_add)
  moreover have "drop c (drop soff src) = drop (soff + c) src"
    by (simp add: add.commute)
  ultimately show ?thesis
    using assms by simp
qed

lemma next_index_differs:
  assumes "sector < ULONG_WRAP"
  shows "((sector + (4096 - (sector mod 8) * 512) div 512) mod ULONG_WRAP) div 8 \<noteq> sector div 8"
proof -
  let ?a = "sector div 8"
  have e: "sector + (4096 - (sector mod 8) * 512) div 512 = 8 * ?a + 8"
    by (rule next_page_sector)
  have a: "?a < 2 ^ 61"
    using assms by (simp add: ULONG_WRAP_def div_less_iff_less_mult mult.commute)
  show ?thesis
  proof (cases "8 * ?a + 8 < ULONG_WRAP")
    case True
    then have "(8 * ?a + 8) mod ULONG_WRAP div 8 = ?a + 1"
      by simp
    then show ?thesis
      unfolding e by simp
  next
    case False
    with a have "8 * ?a + 8 = ULONG_WRAP"
      by (simp add: ULONG_WRAP_def)
    then have "(8 * ?a + 8) mod ULONG_WRAP = 0" and "?a = 2 ^ 61 - 1"
      by (simp_all add: ULONG_WRAP_def)
    then show ?thesis
      unfolding e by simp
  qed
qed

lemma copy_write_read:
  assumes w: "copy_to_brk brk src soff sector n = Inr brk'"
    and sec: "sector < ULONG_WRAP"
    and dst: "doff + n \<le> length dst"
  shows "copy_from_brk dst doff brk' sector n = Inr (splice dst doff (take n (drop soff src))) \<and>
         page_bytes brk' (sector div 8)
           = splice (page_bytes brk (sector div 8)) ((sector mod 8) * 512)
               (take (min n (4096 - (sector mod 8) * 512)) (drop soff src)) \<and>
         klog brk' = klog brk @ digest_calls \<and>
         soff + n \<le> length src"
proof -
  let ?off = "(sector mod 8) * 512"
  let ?copy = "min n (4096 - ?off)"
  let ?s' = "(sector + (4096 - ?off) div 512) mod ULONG_WRAP"
  let ?x1 = "take ?copy (drop soff src)"
  have copy_le: "?copy \<le> n" by (rule min.cobounded1)
  have "bind_f (brk_lookup_page brk sector) (\<lambda>page.
       case page of
         None \<Rightarrow> Inl (BUG 260)
       | Some p \<Rightarrow>
           bind_f (memcpy_to_page (kcalls digest_calls brk) p ?off src soff ?copy) (\<lambda>brk1.
           if crosses_page sector n
           then bind_f (brk_lookup_page brk1 ?s')
                  (\<lambda>page.
                    case page of
                      None \<Rightarrow> Inl (BUG 295)
                    | Some q \<Rightarrow>
                        memcpy_to_page brk1 q 0 src (soff + (4096 - ?off)) (n - (4096 - ?off)))
           else Inr brk1)) = Inr brk'"
    using w by (simp only: copy_to_brk_eq)
  then obtain page where l1': "brk_lookup_page brk sector = Inr page"
    and k1: "(case page of
         None \<Rightarrow> Inl (BUG 260)
       | Some p \<Rightarrow>
           bind_f (memcpy_to_page (kcalls digest_calls brk) p ?off src soff ?copy) (\<lambda>brk1.
           if crosses_page sector n
           then bind_f (brk_lookup_page brk1 ?s')
                  (\<lambda>page.
                    case page of
                      None \<Rightarrow> Inl (BUG 295)
                    | Some q \<Rightarrow>
                        memcpy_to_page brk1 q 0 src (soff + (4096 - ?off)) (n - (4096 - ?off)))
           else Inr brk1)) = Inr brk'"
    by (rule bind_f_InrE)
  from k1 obtain p where page: "page = Some p"
    by (cases page) simp_all
  from k1 [unfolded page option.case] obtain brk1 where
    m1: "memcpy_to_page (kcalls digest_calls brk) p ?off src soff ?copy = Inr brk1"
    and rest: "(if crosses_page sector n
         then bind_f (brk_lookup_page brk1 ?s') (\<lambda>page.
                case page of None \<Rightarrow> Inl (BUG 295)
                | Some q \<Rightarrow> memcpy_to_page brk1 q 0 src (soff + (4096 - ?off)) (n - (4096 - ?off)))
         else Inr brk1) = Inr brk'"
    by (rule bind_f_InrE)
  from l1' page have l1: "brk_lookup_page brk sector = Inr (Some p)"
    by simp
  from l1 obtain pg where t1: "map_of (brk_pages brk) (sector div 8) = Some p"
    and pg: "page_at brk p = Some pg" and ipg: "index pg = sector div 8"
    by (rule brk_lookup_page_SomeD)
  from m1 obtain pg0 where pg0: "page_at (kcalls digest_calls brk) p = Some pg0"
    and sb1: "soff + ?copy \<le> length src" and db1: "?off + ?copy \<le> length (data pg0)"
    and b1: "brk1 = set_page (kcalls digest_calls brk) p (pg0\<lparr>data := splice (data pg0) ?off ?x1\<rparr>)"
    by (rule memcpy_to_page_InrE)
  from pg0 pg have [simp]: "pg0 = pg" by simp
  let ?pg1 = "pg\<lparr>data := splice (data pg) ?off ?x1\<rparr>"
  have plt: "p < length (page_mem brk)"
    using pg by (simp add: page_at_def split: if_splits)
  have lx1: "length ?x1 = ?copy"
    using sb1 by simp
  have pa1: "\<And>q. page_at brk1 q = (if q = p then Some ?pg1 else page_at brk q)"
    unfolding b1 using plt by (simp add: page_at_set_page)
  have t_b1: "brk_pages brk1 = brk_pages brk"
    unfolding b1 by simp
  have dc: "doff + ?copy \<le> length dst"
    using copy_le dst by (rule add_le_trans)
  have db1': "?off + ?copy \<le> length (data pg)"
    using db1 by simp
  have "memcpy dst doff (splice (data pg) ?off ?x1) ?off ?copy = Inr (splice dst doff ?x1)"
    using db1' lx1 dc by (rule read_back_page)
  then have rd1: "memcpy dst doff (data ?pg1) ?off ?copy = Inr (splice dst doff ?x1)"
    by simp
  show ?thesis
  proof (cases "crosses_page sector n")
    case False
    with rest have e: "brk' = brk1" by simp
    from False have cn: "?copy = n"
      by (simp add: crosses_page_eq)
    have "brk_lookup_page brk' sector = Inr (Some p)"
      unfolding e using t1 ipg by (simp add: brk_lookup_page_eq t_b1 pa1)
    then have "copy_from_brk dst doff brk' sector n = memcpy dst doff (data ?pg1) ?off ?copy"
      unfolding copy_from_brk_eq' using False by (simp add: e pa1 bind_f_Inr_right)
    then have "copy_from_brk dst doff brk' sector n
        = Inr (splice dst doff (take n (drop soff src)))"
      unfolding rd1 unfolding cn .
    moreover have "page_bytes brk' (sector div 8) = splice (page_bytes brk (sector div 8)) ?off ?x1"
      using t1 pg by (simp add: page_bytes_def radix_tree_lookup_def e t_b1 pa1)
    moreover have "klog brk' = klog brk @ digest_calls"
      unfolding e b1 by (simp add: set_page_def kcalls_def)
    moreover have "soff + n \<le> length src"
      using sb1 unfolding cn .
    ultimately show ?thesis
      by (intro conjI)
  next
    case True
    then have c: "?copy = 4096 - ?off"
      by (simp add: crosses_page_eq)
    let ?x2 = "take (n - ?copy) (drop (soff + ?copy) src)"
    from rest True have "bind_f (brk_lookup_page brk1 ?s') (\<lambda>page.
                case page of None \<Rightarrow> Inl (BUG 295)
                | Some q \<Rightarrow> memcpy_to_page brk1 q 0 src (soff + (4096 - ?off)) (n - (4096 - ?off)))
         = Inr brk'"
      by (simp only: if_True)
    then obtain page2 where l2': "brk_lookup_page brk1 ?s' = Inr page2"
      and k2: "(case page2 of None \<Rightarrow> Inl (BUG 295)
                | Some q \<Rightarrow> memcpy_to_page brk1 q 0 src (soff + (4096 - ?off)) (n - (4096 - ?off)))
         = Inr brk'"
      by (rule bind_f_InrE)
    from k2 obtain q where page2: "page2 = Some q"
      by (cases page2) simp_all
    from l2' page2 have l2: "brk_lookup_page brk1 ?s' = Inr (Some q)"
      by simp
    from k2 [unfolded page2 option.case] have
      m2: "memcpy_to_page brk1 q 0 src (soff + ?copy) (n - ?copy) = Inr brk'"
      unfolding c .
    from l2 obtain pgq where t2: "map_of (brk_pages brk1) (?s' div 8) = Some q"
      and pgq: "page_at brk1 q = Some pgq" and ipgq: "index pgq = ?s' div 8"
      by (rule brk_lookup_page_SomeD)
    have ne: "?s' div 8 \<noteq> sector div 8"
      using sec by (rule next_index_differs)
    have qp: "q \<noteq> p"
    proof
      assume "q = p"
      with pgq have "pgq = ?pg1" by (simp add: pa1)
      with ipgq ipg ne show False by simp
    qed
    from m2 obtain pgq' where pgq': "page_at brk1 q = Some pgq'"
      and sb2: "soff + ?copy + (n - ?copy) \<le> length src" and db2: "0 + (n - ?copy) \<le> length (data pgq')"
      and b2: "brk' = set_page brk1 q (pgq'\<lparr>data := splice (data pgq') 0 ?x2\<rparr>)"
      by (rule memcpy_to_page_InrE)
    from pgq pgq' have [simp]: "pgq' = pgq" by simp
    let ?pg2 = "pgq\<lparr>data := splice (data pgq) 0 ?x2\<rparr>"
    have qlt: "q < length (page_mem brk1)"
      using pgq by (simp add: page_at_def split: if_splits)
    have pa2: "\<And>r. page_at brk' r = (if r = q then Some ?pg2 else page_at brk1 r)"
      unfolding b2 using qlt by (simp add: page_at_set_page)
    have t_b2: "brk_pages brk' = brk_pages brk"
      unfolding b2 by (simp add: t_b1)
    have lx2: "length ?x2 = n - ?copy"
      using sb2 by simp
    have L1: "brk_lookup_page brk' sector = Inr (Some p)"
      using t1 ipg qp by (simp add: brk_lookup_page_eq t_b2 pa2 pa1)
    have L2: "brk_lookup_page brk' ?s' = Inr (Some q)"
      using t2 ipgq by (simp add: brk_lookup_page_eq t_b2 t_b1 pa2)
    have P1: "page_at brk' p = Some ?pg1"
      using qp by (simp add: pa2 pa1)
    have P2: "page_at brk' q = Some ?pg2"
      by (simp add: pa2)
    let ?d1 = "splice dst doff ?x1"
    have ld1: "length ?d1 = length dst"
      using dc lx1 by (intro length_splice) simp
    have dn: "doff + ?copy + (n - ?copy) \<le> length ?d1"
      unfolding ld1 using dst copy_le by simp
    have db2': "0 + (n - ?copy) \<le> length (data pgq)"
      using db2 by simp
    have "memcpy ?d1 (doff + ?copy) (splice (data pgq) 0 ?x2) 0 (n - ?copy)
        = Inr (splice ?d1 (doff + ?copy) ?x2)"
      using db2' lx2 dn by (rule read_back_page)
    then have rd2: "memcpy ?d1 (doff + ?copy) (data ?pg2) 0 (n - ?copy)
        = Inr (splice ?d1 (doff + ?copy) ?x2)"
      by simp
    have x12: "?x1 @ ?x2 = take n (drop soff src)"
      using copy_le by (rule take_two_parts)
    have fin: "splice ?d1 (doff + ?copy) ?x2 = splice dst doff (take n (drop soff src))"
      unfolding x12 [symmetric] using copy_le dst lx1 lx2 by (rule splice_two_parts)
    have "copy_from_brk dst doff brk' sector n
        = memcpy ?d1 (doff + ?copy) (data ?pg2) 0 (n - ?copy)"
      unfolding copy_from_brk_eq' c
      by (simp only: L1 bind_f_Inr option.case P1 [unfolded c] rd1 [unfolded c] True if_True
          L2 P2 [unfolded c])
    then have "copy_from_brk dst doff brk' sector n
        = Inr (splice dst doff (take n (drop soff src)))"
      unfolding rd2 fin .
    moreover have "page_bytes brk' (sector div 8) = splice (page_bytes brk (sector div 8)) ?off ?x1"
      using t1 pg by (simp add: page_bytes_def radix_tree_lookup_def t_b2 P1)
    moreover have "klog brk' = klog brk @ digest_calls"
      unfolding b2 b1 by (simp add: set_page_def kcalls_def)
    moreover have "soff + n \<le> length src"
      using sb2 copy_le by simp
    ultimately show ?thesis
      by (intro conjI)
  qed
qed

section \<open>Reading\<close>

lemma copy_from_brk_absent:
  assumes cap: "in_capacity brk sector n"
    and absent: "\<forall>idx. page_touched sector n idx \<longrightarrow> radix_tree_lookup (brk_pages brk) idx = None"
    and n: "0 < n"
    and dst: "doff + n \<le> length dst"
  shows "copy_from_brk dst doff brk sector n =
           Inr (take doff dst @ replicate n 0 @ drop (doff + n) dst)"
proof -
  let ?off = "(sector mod 8) * 512"
  let ?copy = "min n (4096 - ?off)"
  have copy_le: "?copy \<le> n" by simp
  have l1: "brk_lookup_page brk sector = Inr None"
    using absent page_touched_first [OF n] by (simp add: brk_lookup_page_absent)
  have m1: "memset dst doff 0 ?copy = Inr (splice dst doff (replicate ?copy 0))"
    using dst copy_le by (intro memset_splice) linarith
  show ?thesis
  proof (cases "?copy < n")
    case False
    with copy_le have e: "?copy = n" by linarith
    have "copy_from_brk dst doff brk sector n = memset dst doff 0 ?copy"
      unfolding copy_from_brk_eq Let_def l1 using False by (simp add: bind_f_def split: sum.splits)
    also have "\<dots> = Inr (splice dst doff (replicate n 0))"
      unfolding e using dst by (rule memset_splice)
    finally show ?thesis
      by (simp add: splice_def)
  next
    case True
    then have c: "?copy = 4096 - ?off" and cross: "4096 - ?off < n"
      by linarith+
    have s': "(sector + ?copy div 512) mod ULONG_WRAP = 8 * (sector div 8) + 8"
      using crossing_sector [OF cap cross] unfolding c .
    have "radix_tree_lookup (brk_pages brk) ((8 * (sector div 8) + 8) div 8) = None"
      using absent page_touched_second [OF cross] by simp
    then have l2: "brk_lookup_page brk (8 * (sector div 8) + 8) = Inr None"
      by (rule brk_lookup_page_absent)
    let ?d1 = "splice dst doff (replicate ?copy (0::byte))"
    have m2: "memset ?d1 (doff + ?copy) 0 (n - ?copy)
        = Inr (splice ?d1 (doff + ?copy) (replicate (n - ?copy) 0))"
      using dst copy_le by (intro memset_splice) simp
    have "splice ?d1 (doff + length (replicate ?copy (0::byte))) (replicate (n - ?copy) 0)
           = splice dst doff (replicate ?copy 0 @ replicate (n - ?copy) 0)"
      using dst copy_le by (intro splice_splice) simp
    moreover have "replicate ?copy (0::byte) @ replicate (n - ?copy) 0 = replicate n 0"
      using copy_le by (simp flip: replicate_add)
    ultimately have fin: "splice ?d1 (doff + ?copy) (replicate (n - ?copy) 0)
        = take doff dst @ replicate n 0 @ drop (doff + n) dst"
      by (simp add: splice_def)
    have "copy_from_brk dst doff brk sector n = memset ?d1 (doff + ?copy) 0 (n - ?copy)"
      unfolding copy_from_brk_eq Let_def l1 s' using True
      by (simp only: bind_f_Inr option.case m1 if_True l2)
    then show ?thesis
      unfolding m2 fin .
  qed
qed

lemma touched_iff_single_crossing:
  assumes "0 < n" and "single_crossing sector n"
  shows "(\<forall>idx. page_touched sector n idx \<longrightarrow> P idx) \<longleftrightarrow>
         P (sector div 8) \<and> (crosses_page sector n \<longrightarrow> P (sector div 8 + 1))"
proof
  assume a: "\<forall>idx. page_touched sector n idx \<longrightarrow> P idx"
  have "page_touched sector n (sector div 8)"
    using assms(1) by (rule page_touched_first)
  moreover have "crosses_page sector n \<Longrightarrow> page_touched sector n (sector div 8 + 1)"
    by (rule page_touched_second) (simp only: crosses_page_eq)
  ultimately show "P (sector div 8) \<and> (crosses_page sector n \<longrightarrow> P (sector div 8 + 1))"
    using a by blast
next
  assume b: "P (sector div 8) \<and> (crosses_page sector n \<longrightarrow> P (sector div 8 + 1))"
  show "\<forall>idx. page_touched sector n idx \<longrightarrow> P idx"
  proof (intro allI impI)
    fix idx assume "page_touched sector n idx"
    with assms(2) have "idx = sector div 8 \<or> (crosses_page sector n \<and> idx = sector div 8 + 1)"
      by (rule touched_single_crossing)
    with b show "P idx" by blast
  qed
qed

section \<open>The write phase after its preparation\<close>

lemma store_inv_page:
  assumes "store_inv brk" and "page_at brk p = Some pg"
  shows "length (data pg) = PAGE_SIZE" and "(index pg, p) \<in> set (brk_pages brk)"
proof -
  from assms have "p \<in> snd ` set (brk_pages brk)"
    unfolding store_inv_iff by simp
  then obtain i where i: "(i, p) \<in> set (brk_pages brk)"
    by auto
  with assms(1) obtain pg' where "page_at brk p = Some pg'" "index pg' = i"
    "length (data pg') = PAGE_SIZE"
    unfolding store_inv_iff by blast
  with assms(2) i show "length (data pg) = PAGE_SIZE" and "(index pg, p) \<in> set (brk_pages brk)"
    by simp_all
qed

lemma store_inv_tree_ok: "store_inv brk \<Longrightarrow> tree_ok brk"
  by (simp add: store_inv_def)

lemma store_inv_set_page:
  assumes inv: "store_inv brk" and pg: "page_at brk p = Some pg"
    and idx: "index pg' = index pg" and len: "length (data pg') = PAGE_SIZE"
  shows "store_inv (set_page brk p pg')"
proof -
  have plt: "p < length (page_mem brk)"
    using pg by (simp add: page_at_def split: if_splits)
  have pa: "\<And>q. page_at (set_page brk p pg') q = (if q = p then Some pg' else page_at brk q)"
    using plt by (simp add: page_at_set_page)
  from inv have d: "distinct (map fst (brk_pages brk))"
    and v: "\<And>i q. (i, q) \<in> set (brk_pages brk) \<Longrightarrow>
        \<exists>pg. page_at brk q = Some pg \<and> index pg = i \<and> length (data pg) = PAGE_SIZE"
    and l: "\<And>q. page_at brk q \<noteq> None \<Longrightarrow> q \<in> snd ` set (brk_pages brk)"
    unfolding store_inv_iff by blast+
  show ?thesis
    unfolding store_inv_iff pa brk_pages_set_page
  proof (intro conjI allI impI)
    show "distinct (map fst (brk_pages brk))" by (rule d)
  next
    fix i q assume m: "(i, q) \<in> set (brk_pages brk)"
    from v [OF m] obtain pgq where q: "page_at brk q = Some pgq" "index pgq = i"
      "length (data pgq) = PAGE_SIZE" by blast
    show "\<exists>pg. (if q = p then Some pg' else page_at brk q) = Some pg \<and> index pg = i
        \<and> length (data pg) = PAGE_SIZE"
    proof (cases "q = p")
      case True
      with q pg have "index pg = i" by simp
      with True idx len show ?thesis by simp
    next
      case False
      with q show ?thesis by simp
    qed
  next
    fix q assume "(if q = p then Some pg' else page_at brk q) \<noteq> None"
    then have "page_at brk q \<noteq> None"
      using pg by (auto split: if_splits)
    then show "q \<in> snd ` set (brk_pages brk)" by (rule l)
  qed
qed

lemma store_inv_kcalls [simp]: "store_inv (kcalls cs brk) = store_inv brk"
  by (rule store_inv_cong) (simp_all add: kcalls_def)

lemma memcpy_to_page_inv:
  assumes inv: "store_inv brk" and m: "memcpy_to_page brk p doff src soff n = Inr brk'"
  shows "store_inv brk'" and "brk_pages brk' = brk_pages brk"
    and "capacity brk' = capacity brk" and "avail brk' = avail brk"
proof -
  from m obtain pg where pg: "page_at brk p = Some pg" and sb: "soff + n \<le> length src"
    and db: "doff + n \<le> length (data pg)"
    and b: "brk' = set_page brk p (pg\<lparr>data := splice (data pg) doff (take n (drop soff src))\<rparr>)"
    by (rule memcpy_to_page_InrE)
  from sb have "length (take n (drop soff src)) = n" by simp
  with db have "length (splice (data pg) doff (take n (drop soff src))) = length (data pg)"
    by (intro length_splice) simp
  also from inv pg have "\<dots> = PAGE_SIZE" by (rule store_inv_page)
  finally have "length (data (pg\<lparr>data := splice (data pg) doff (take n (drop soff src))\<rparr>)) = PAGE_SIZE"
    by simp
  with inv pg show "store_inv brk'"
    unfolding b by (intro store_inv_set_page) simp_all
  show "brk_pages brk' = brk_pages brk" "capacity brk' = capacity brk" "avail brk' = avail brk"
    unfolding b by (simp_all add: set_page_def)
qed

lemma memcpy_to_page_total:
  "(\<exists>brk'. memcpy_to_page brk p doff src soff n = Inr brk') \<or>
   memcpy_to_page brk p doff src soff n = Inl Bad_access"
  by (cases "page_at brk p") (simp_all add: memcpy_to_page_def memcpy_def)

lemma first_part_fits: "off \<le> 3584 \<Longrightarrow> off + min n (4096 - off) \<le> (4096::nat)"
  by simp

lemma second_part_fits: "off + n \<le> 8192 \<Longrightarrow> 0 + (n - (4096 - off)) \<le> (4096::nat)"
  by simp

lemma src_first_part: "soff + n \<le> l \<Longrightarrow> soff + min n x \<le> (l::nat)"
  by simp

lemma src_second_part: "x < n \<Longrightarrow> soff + n \<le> l \<Longrightarrow> soff + x + (n - x) \<le> (l::nat)"
  by simp

text \<open>
  With its pages in the tree, \<^verbatim>\<open>copy_to_brk\<close> meets none of its assertions; it succeeds
  when the range stays within one boundary crossing and the source buffer holds \<open>n\<close> bytes.
\<close>

lemma copy_to_brk_present:
  assumes inv: "store_inv brk"
    and p1: "map_of (brk_pages brk) (sector div 8) \<noteq> None"
    and p2: "crosses_page sector n \<Longrightarrow>
      map_of (brk_pages brk)
        (((sector + (4096 - (sector mod 8) * 512) div 512) mod ULONG_WRAP) div 8) \<noteq> None"
  shows "(\<exists>brk'. copy_to_brk brk src soff sector n = Inr brk') \<or>
           copy_to_brk brk src soff sector n = Inl Bad_access"
    and "single_crossing sector n \<Longrightarrow> soff + n \<le> length src \<Longrightarrow>
           \<exists>brk'. copy_to_brk brk src soff sector n = Inr brk'"
proof -
  let ?off = "(sector mod 8) * 512"
  let ?copy = "min n (4096 - ?off)"
  let ?s' = "(sector + (4096 - ?off) div 512) mod ULONG_WRAP"
  let ?k = "kcalls digest_calls brk"
  let ?second = "\<lambda>brk1. if crosses_page sector n
           then bind_f (brk_lookup_page brk1 ?s')
                  (\<lambda>page.
                    case page of
                      None \<Rightarrow> Inl (BUG 295)
                    | Some q \<Rightarrow>
                        memcpy_to_page brk1 q 0 src (soff + (4096 - ?off)) (n - (4096 - ?off)))
           else Inr brk1"
  from p1 obtain p where t1: "map_of (brk_pages brk) (sector div 8) = Some p"
    by blast
  have l1: "brk_lookup_page brk sector = Inr (Some p)"
    using inv t1 by (simp add: brk_lookup_page_ok store_inv_tree_ok)
  have w: "copy_to_brk brk src soff sector n
      = bind_f (memcpy_to_page ?k p ?off src soff ?copy) ?second"
    unfolding copy_to_brk_eq l1 by (simp only: bind_f_Inr option.case)
  from inv t1 obtain pg where pg: "page_at brk p = Some pg" and lpg: "length (data pg) = PAGE_SIZE"
    by (rule tree_okD [OF store_inv_tree_ok])
  have kpg: "page_at ?k p = Some pg"
    using pg by simp
  have second: "(\<exists>brk'. ?second brk1 = Inr brk') \<or> ?second brk1 = Inl Bad_access"
    and second_ok: "single_crossing sector n \<Longrightarrow> soff + n \<le> length src \<Longrightarrow>
        \<exists>brk'. ?second brk1 = Inr brk'"
    if i1: "store_inv brk1" and t: "brk_pages brk1 = brk_pages brk" for brk1
  proof -
    show "(\<exists>brk'. ?second brk1 = Inr brk') \<or> ?second brk1 = Inl Bad_access"
    proof (cases "crosses_page sector n")
      case False
      then show ?thesis by simp
    next
      case True
      from p2 [OF True] obtain q where t2: "map_of (brk_pages brk) (?s' div 8) = Some q"
        by blast
      have l2: "brk_lookup_page brk1 ?s' = Inr (Some q)"
        using i1 t2 t by (simp add: brk_lookup_page_ok store_inv_tree_ok)
      have "?second brk1 = memcpy_to_page brk1 q 0 src (soff + (4096 - ?off)) (n - (4096 - ?off))"
        using True by (simp only: if_True l2 bind_f_Inr option.case)
      moreover have "(\<exists>brk'. memcpy_to_page brk1 q 0 src (soff + (4096 - ?off)) (n - (4096 - ?off)) = Inr brk')
          \<or> memcpy_to_page brk1 q 0 src (soff + (4096 - ?off)) (n - (4096 - ?off)) = Inl Bad_access"
        by (rule memcpy_to_page_total)
      ultimately show ?thesis by simp
    qed
    show "\<exists>brk'. ?second brk1 = Inr brk'"
      if sc: "single_crossing sector n" and sb: "soff + n \<le> length src"
    proof (cases "crosses_page sector n")
      case False
      then show ?thesis by simp
    next
      case True
      from p2 [OF True] obtain q where t2: "map_of (brk_pages brk) (?s' div 8) = Some q"
        by blast
      have l2: "brk_lookup_page brk1 ?s' = Inr (Some q)"
        using i1 t2 t by (simp add: brk_lookup_page_ok store_inv_tree_ok)
      from t2 t have "map_of (brk_pages brk1) (?s' div 8) = Some q" by simp
      with i1 obtain pgq where pgq: "page_at brk1 q = Some pgq"
        and lq: "length (data pgq) = PAGE_SIZE"
        by (rule tree_okD [OF store_inv_tree_ok])
      from sc have "?off + n \<le> 8192" by (simp only: single_crossing_eq)
      then have "0 + (n - (4096 - ?off)) \<le> 4096" by (rule second_part_fits)
      then have f2: "0 + (n - (4096 - ?off)) \<le> length (data pgq)"
        unfolding lq PAGE_SIZE_eq .
      from True have "4096 - ?off < n" by (simp only: crosses_page_eq)
      then have s2: "soff + (4096 - ?off) + (n - (4096 - ?off)) \<le> length src"
        using sb by (rule src_second_part)
      have "?second brk1 = memcpy_to_page brk1 q 0 src (soff + (4096 - ?off)) (n - (4096 - ?off))"
        using True by (simp only: if_True l2 bind_f_Inr option.case)
      also have "\<dots> = Inr (set_page brk1 q
          (pgq\<lparr>data := splice (data pgq) 0 (take (n - (4096 - ?off)) (drop (soff + (4096 - ?off)) src))\<rparr>))"
        using pgq s2 f2 by (rule memcpy_to_page_ok)
      finally show ?thesis by blast
    qed
  qed
  have first: "(\<exists>brk1. memcpy_to_page ?k p ?off src soff ?copy = Inr brk1)
      \<or> memcpy_to_page ?k p ?off src soff ?copy = Inl Bad_access"
    by (rule memcpy_to_page_total)
  show "(\<exists>brk'. copy_to_brk brk src soff sector n = Inr brk') \<or>
           copy_to_brk brk src soff sector n = Inl Bad_access"
  proof -
    from first show ?thesis
    proof
      assume "\<exists>brk1. memcpy_to_page ?k p ?off src soff ?copy = Inr brk1"
      then obtain brk1 where m1: "memcpy_to_page ?k p ?off src soff ?copy = Inr brk1" ..
      have "store_inv ?k" using inv by simp
      from memcpy_to_page_inv(1,2) [OF this m1] have "store_inv brk1" "brk_pages brk1 = brk_pages brk"
        by simp_all
      from second [OF this] show ?thesis
        unfolding w m1 by (simp only: bind_f_Inr)
    next
      assume "memcpy_to_page ?k p ?off src soff ?copy = Inl Bad_access"
      then show ?thesis
        unfolding w by simp
    qed
  qed
  show "\<exists>brk'. copy_to_brk brk src soff sector n = Inr brk'"
    if sc: "single_crossing sector n" and sb: "soff + n \<le> length src"
  proof -
    have "?off \<le> 3584" by (rule offset_le)
    then have "?off + ?copy \<le> 4096" by (rule first_part_fits)
    then have f1: "?off + ?copy \<le> length (data pg)"
      unfolding lpg PAGE_SIZE_eq .
    from sb have s1: "soff + ?copy \<le> length src" by (rule src_first_part)
    from kpg s1 f1 have m1: "memcpy_to_page ?k p ?off src soff ?copy
        = Inr (set_page ?k p (pg\<lparr>data := splice (data pg) ?off (take ?copy (drop soff src))\<rparr>))"
      (is "_ = Inr ?brk1")
      by (rule memcpy_to_page_ok)
    have "store_inv ?k" using inv by simp
    from memcpy_to_page_inv(1,2) [OF this m1] have "store_inv ?brk1" "brk_pages ?brk1 = brk_pages brk"
      by simp_all
    from second_ok [OF this sc sb] show ?thesis
      unfolding w m1 by (simp only: bind_f_Inr)
  qed
qed

section \<open>Discarding\<close>

lemma discard_from_brk_pages:
  "discard_from_brk brk sector n = discard_pages brk sector (n div PAGE_SIZE)"
proof (induction brk sector n rule: discard_from_brk.induct)
  case (1 brk sector n)
  show ?case
  proof (cases "n \<ge> PAGE_SIZE")
    case False
    then have "n div PAGE_SIZE = 0" by simp
    with False show ?thesis by (simp add: discard_from_brk.simps [of brk sector n])
  next
    case True
    then have "n div PAGE_SIZE = Suc ((n - PAGE_SIZE) div PAGE_SIZE)"
      by (simp add: PAGE_SIZE_eq le_div_geq)
    moreover have "drop_bit SECTOR_SHIFT PAGE_SIZE = PAGE_SECTORS"
      by (simp add: bytes_to_sectors_eq PAGE_SIZE_eq PAGE_SECTORS_eq)
    ultimately show ?thesis
      using True 1 by (simp add: discard_from_brk.simps [of brk sector n] cong: bind_f_cong)
  qed
qed

lemma store_inv_tree_inj:
  assumes "store_inv brk" and "map_of (brk_pages brk) i = Some p" and "map_of (brk_pages brk) j = Some p"
  shows "i = j"
  using store_inv_tree_ok [OF assms(1)] assms(2,3) by (rule tree_ok_inj)

lemma brk_zero_page_spec:
  assumes inv: "store_inv brk"
  shows "\<exists>brk'. brk_zero_page brk sector = Inr brk' \<and> store_inv brk' \<and>
           brk_pages brk' = brk_pages brk \<and> avail brk' = avail brk \<and>
           capacity brk' = capacity brk \<and> klog brk' = klog brk \<and>
           (\<forall>idx. page_bytes brk' idx =
              (if idx = sector div 8 then replicate PAGE_SIZE 0 else page_bytes brk idx))"
proof (cases "map_of (brk_pages brk) (sector div 8)")
  case None
  then have "brk_zero_page brk sector = Inr brk"
    using inv by (simp add: brk_zero_page_def brk_lookup_page_ok store_inv_tree_ok)
  moreover from None have "page_bytes brk (sector div 8) = replicate PAGE_SIZE 0"
    by (simp add: page_bytes_def radix_tree_lookup_def)
  ultimately show ?thesis
    using inv by simp
next
  case (Some p)
  from inv Some obtain pg where pg: "page_at brk p = Some pg" and ipg: "index pg = sector div 8"
    by (rule tree_okD [OF store_inv_tree_ok])
  let ?brk' = "set_page brk p (pg\<lparr>data := replicate PAGE_SIZE 0\<rparr>)"
  have z: "brk_zero_page brk sector = Inr ?brk'"
    using inv Some pg
    by (simp add: brk_zero_page_def brk_lookup_page_ok store_inv_tree_ok clear_highpage_def)
  have i: "store_inv ?brk'"
    using inv pg by (rule store_inv_set_page) simp_all
  have plt: "p < length (page_mem brk)"
    using pg by (simp add: page_at_def split: if_splits)
  have pa: "\<And>q. page_at ?brk' q
      = (if q = p then Some (pg\<lparr>data := replicate PAGE_SIZE 0\<rparr>) else page_at brk q)"
    using plt by (simp add: page_at_set_page)
  have "page_bytes ?brk' idx =
      (if idx = sector div 8 then replicate PAGE_SIZE 0 else page_bytes brk idx)" for idx
  proof (cases "map_of (brk_pages brk) idx")
    case None
    with Some show ?thesis
      by (auto simp: page_bytes_def radix_tree_lookup_def)
  next
    case (Some q)
    show ?thesis
    proof (cases "q = p")
      case True
      with Some \<open>map_of (brk_pages brk) (sector div 8) = Some p\<close> inv
      have "idx = sector div 8"
        by (auto intro: store_inv_tree_inj)
      with Some True show ?thesis
        by (simp add: page_bytes_def radix_tree_lookup_def pa)
    next
      case False
      with Some \<open>map_of (brk_pages brk) (sector div 8) = Some p\<close>
      have "idx \<noteq> sector div 8" by auto
      with Some False show ?thesis
        by (simp add: page_bytes_def radix_tree_lookup_def pa)
    qed
  qed
  with z i show ?thesis
    by (simp add: set_page_def)
qed

lemma next_page_index: "(sector + 8) div 8 = sector div 8 + (1::nat)"
  by simp

lemma range_empty: "((a::nat) \<le> i \<and> i < a + 0) = False"
  by simp

lemma range_step:
  "((a::nat) \<le> i \<and> i < a + Suc k) = (i = a \<or> (a + 1 \<le> i \<and> i < a + 1 + k))"
  by auto

lemma discard_pages_spec:
  assumes "store_inv brk" and "sector + 8 * k < ULONG_WRAP"
  shows "\<exists>brk'. discard_pages brk sector k = Inr brk' \<and> store_inv brk' \<and>
           brk_pages brk' = brk_pages brk \<and> avail brk' = avail brk \<and>
           capacity brk' = capacity brk \<and> klog brk' = klog brk \<and>
           (\<forall>idx. page_bytes brk' idx =
              (if sector div 8 \<le> idx \<and> idx < sector div 8 + k
               then replicate PAGE_SIZE 0 else page_bytes brk idx))"
  using assms
proof (induction k arbitrary: brk sector)
  case 0
  then show ?case by (simp only: discard_pages.simps range_empty if_False) simp
next
  case (Suc k)
  from brk_zero_page_spec [OF Suc.prems(1), of sector] obtain brk1 where
    z: "brk_zero_page brk sector = Inr brk1" and i1: "store_inv brk1"
    and t1: "brk_pages brk1 = brk_pages brk" and a1: "avail brk1 = avail brk"
    and c1: "capacity brk1 = capacity brk" and k1: "klog brk1 = klog brk"
    and b1: "\<And>idx. page_bytes brk1 idx =
              (if idx = sector div 8 then replicate PAGE_SIZE 0 else page_bytes brk idx)"
    by blast
  from Suc.prems(2) have lt: "sector + 8 < ULONG_WRAP" and lt': "(sector + 8) + 8 * k < ULONG_WRAP"
    by simp_all
  from Suc.IH [OF i1 lt'] obtain brk2 where
    d: "discard_pages brk1 (sector + 8) k = Inr brk2" and i2: "store_inv brk2"
    and t2: "brk_pages brk2 = brk_pages brk1" and a2: "avail brk2 = avail brk1"
    and c2: "capacity brk2 = capacity brk1" and k2: "klog brk2 = klog brk1"
    and b2: "\<And>idx. page_bytes brk2 idx =
              (if (sector + 8) div 8 \<le> idx \<and> idx < (sector + 8) div 8 + k
               then replicate PAGE_SIZE 0 else page_bytes brk1 idx)"
    by blast
  have "discard_pages brk sector (Suc k) = Inr brk2"
    using z d lt by (simp add: PAGE_SECTORS_eq)
  moreover have "page_bytes brk2 idx =
              (if sector div 8 \<le> idx \<and> idx < sector div 8 + Suc k
               then replicate PAGE_SIZE 0 else page_bytes brk idx)" for idx
    unfolding b2 b1 next_page_index range_step by simp
  ultimately show ?case
    using i2 t1 t2 a1 a2 c1 c2 k1 k2 by simp
qed

lemma read_whole_page:
  assumes inv: "store_inv brk" and dst: "doff + PAGE_SIZE \<le> length dst"
  shows "copy_from_brk dst doff brk (idx * 8) PAGE_SIZE = Inr (splice dst doff (page_bytes brk idx))"
proof -
  have nc: "\<not> crosses_page (idx * 8) PAGE_SIZE"
    by (simp add: crosses_page_eq PAGE_SIZE_eq)
  have l: "brk_lookup_page brk (idx * 8) = Inr (map_of (brk_pages brk) idx)"
    using inv by (simp add: brk_lookup_page_ok store_inv_tree_ok)
  show ?thesis
  proof (cases "map_of (brk_pages brk) idx")
    case None
    then have "page_bytes brk idx = replicate PAGE_SIZE 0"
      by (simp add: page_bytes_def radix_tree_lookup_def)
    moreover have "memset dst doff 0 PAGE_SIZE = Inr (splice dst doff (replicate PAGE_SIZE 0))"
      using dst by (rule memset_splice)
    ultimately show ?thesis
      unfolding copy_from_brk_eq' l using nc None
      by (simp add: PAGE_SIZE_eq bind_f_Inr_right)
  next
    case (Some p)
    with inv obtain pg where pg: "page_at brk p = Some pg" and len: "length (data pg) = PAGE_SIZE"
      by (rule tree_okD [OF store_inv_tree_ok])
    from Some pg have pb: "page_bytes brk idx = data pg"
      by (simp add: page_bytes_def radix_tree_lookup_def)
    have "memcpy dst doff (data pg) 0 PAGE_SIZE
        = Inr (splice dst doff (take PAGE_SIZE (drop 0 (data pg))))"
      using dst len by (intro memcpy_splice) simp_all
    then have "memcpy dst doff (data pg) 0 PAGE_SIZE = Inr (splice dst doff (data pg))"
      using len by simp
    then show ?thesis
      unfolding copy_from_brk_eq' l pb using nc Some pg
      by (simp add: PAGE_SIZE_eq bind_f_Inr_right)
  qed
qed

lemma covered_range_arith:
  "4096 * a \<le> idx * 4096 \<Longrightarrow> (idx + 1) * 4096 \<le> 4096 * a + n \<Longrightarrow> n < 4096 + 4096 * k \<Longrightarrow>
   a \<le> idx \<and> idx < a + (k::nat)"
  by simp

lemma zeroed_range_arith:
  "a \<le> idx \<Longrightarrow> idx < a + k \<Longrightarrow> 4096 * k \<le> n \<Longrightarrow> 4096 * a \<le> s \<Longrightarrow>
   idx * 4096 \<le> s + n - 1 \<and> (0::nat) < n"
  by simp

lemma sector_bytes_ge: "4096 * (sector div 8) \<le> sector * (512::nat)"
proof -
  have "8 * (sector div 8) \<le> sector" by simp
  then have "512 * (8 * (sector div 8)) \<le> 512 * sector" by (rule mult_le_mono2)
  then show ?thesis by (simp add: mult.commute)
qed

lemma covered_aligned:
  assumes al: "sector mod 8 = 0" and cov: "page_covered sector n idx"
  shows "sector div 8 \<le> idx \<and> idx < sector div 8 + n div 4096"
proof -
  from al have "sector = 8 * (sector div 8)" by auto
  then have "sector * 512 = 8 * (sector div 8) * 512" by simp
  then have s: "sector * 512 = 4096 * (sector div 8)" by simp
  from cov have "4096 * (sector div 8) \<le> idx * 4096"
    and "(idx + 1) * 4096 \<le> 4096 * (sector div 8) + n"
    unfolding page_covered_def SECTOR_SHIFT_def PAGE_SIZE_eq by (simp_all add: s)
  moreover have "n < 4096 + 4096 * (n div 4096)"
    by (rule dividend_less_times_div) simp
  ultimately show ?thesis
    by (rule covered_range_arith)
qed

lemma zeroed_touched:
  assumes "sector div 8 \<le> idx" and "idx < sector div 8 + n div 4096"
  shows "page_touched sector n idx"
proof -
  have "4096 * (n div 4096) \<le> n"
    by (rule times_div_less_eq_dividend)
  with assms have "idx * 4096 \<le> sector * 512 + n - 1 \<and> 0 < n"
    using sector_bytes_ge by (rule zeroed_range_arith)
  then have "idx \<le> (sector * 512 + n - 1) div 4096" and "0 < n"
    by (simp_all add: less_eq_div_iff_mult_less_eq)
  with assms(1) show ?thesis
    by (simp add: page_touched_def SECTOR_SHIFT_def PAGE_SIZE_eq sector_bytes_div)
qed

lemma discard_no_wrap:
  assumes "in_capacity brk sector n"
  shows "sector + 8 * (n div 4096) < ULONG_WRAP"
proof -
  have "4096 * (n div 4096) \<le> n"
    by (rule times_div_less_eq_dividend)
  then have "8 * (n div 4096) * 512 \<le> n" by simp
  then have "8 * (n div 4096) \<le> n div 512"
    by (simp add: less_eq_div_iff_mult_less_eq)
  with assms show ?thesis
    by (simp add: in_capacity_def bytes_to_sectors_eq)
qed

lemma discard_from_brk_spec:
  assumes inv: "store_inv brk" and cap: "in_capacity brk sector n"
  shows "\<exists>brk'. discard_from_brk brk sector n = Inr brk' \<and> store_inv brk' \<and>
           brk_pages brk' = brk_pages brk \<and> avail brk' = avail brk \<and>
           capacity brk' = capacity brk \<and> klog brk' = klog brk \<and>
           (\<forall>idx. page_bytes brk' idx =
              (if sector div 8 \<le> idx \<and> idx < sector div 8 + n div 4096
               then replicate PAGE_SIZE 0 else page_bytes brk idx))"
  unfolding discard_from_brk_pages PAGE_SIZE_eq [symmetric]
  using discard_pages_spec [OF inv discard_no_wrap [OF cap]]
  by (simp add: PAGE_SIZE_eq)

lemma store_inv_dev_page1: "store_inv dev_page1"
  by (simp add: store_inv_def tree_ok_def no_leak_def dev_page1_def page_at_def)

text \<open>
  What a discard does ensure. A discard of a range inside the capacity of a well-formed
  store always returns, allocates nothing and leaves the radix tree as it is, and the
  request reports \<open>0\<close>. Every page that no byte of the range touches reads as before.
  When the range starts at a page boundary, every page it covers completely reads as zeroes
  afterwards.
\<close>

lemma discard_zeroes_aligned_pages:
  assumes inv: "store_inv brk" and cap: "in_capacity brk sector n"
  shows "\<exists>brk'. discard_from_brk brk sector n = Inr brk' \<and>
           store_inv brk' \<and> brk_pages brk' = brk_pages brk \<and> avail brk' = avail brk \<and>
           (sector mod PAGE_SECTORS = 0 \<longrightarrow>
              (\<forall>idx dst doff. page_covered sector n idx \<and> doff + PAGE_SIZE \<le> length dst \<longrightarrow>
                 copy_from_brk dst doff brk' (idx * PAGE_SECTORS) PAGE_SIZE
                   = Inr (take doff dst @ replicate PAGE_SIZE 0 @ drop (doff + PAGE_SIZE) dst))) \<and>
           (\<forall>idx dst doff. \<not> page_touched sector n idx \<and> doff + PAGE_SIZE \<le> length dst \<longrightarrow>
              copy_from_brk dst doff brk' (idx * PAGE_SECTORS) PAGE_SIZE
                = copy_from_brk dst doff brk (idx * PAGE_SECTORS) PAGE_SIZE) \<and>
           (\<forall>b. bi_discard b \<and> bi_sector b = sector \<and> bi_size b = n \<longrightarrow>
              brk_make_request brk b = Inr (0, b, brk'))"
proof -
  from discard_from_brk_spec [OF inv cap] obtain brk' where
    d: "discard_from_brk brk sector n = Inr brk'" and inv': "store_inv brk'"
    and t: "brk_pages brk' = brk_pages brk" and a: "avail brk' = avail brk"
    and b: "\<And>idx. page_bytes brk' idx =
              (if sector div 8 \<le> idx \<and> idx < sector div 8 + n div 4096
               then replicate PAGE_SIZE 0 else page_bytes brk idx)"
    by blast
  have covered: "copy_from_brk dst doff brk' (idx * PAGE_SECTORS) PAGE_SIZE
                   = Inr (take doff dst @ replicate PAGE_SIZE 0 @ drop (doff + PAGE_SIZE) dst)"
    if al: "sector mod PAGE_SECTORS = 0" and cov: "page_covered sector n idx"
      and dst: "doff + PAGE_SIZE \<le> length dst" for idx dst doff
  proof -
    from al have "sector mod 8 = 0" by (simp add: PAGE_SECTORS_eq)
    from covered_aligned [OF this cov] have "page_bytes brk' idx = replicate PAGE_SIZE 0"
      by (simp add: b)
    with read_whole_page [OF inv' dst, of idx] show ?thesis
      by (simp add: PAGE_SECTORS_eq splice_def)
  qed
  have outside: "copy_from_brk dst doff brk' (idx * PAGE_SECTORS) PAGE_SIZE
                = copy_from_brk dst doff brk (idx * PAGE_SECTORS) PAGE_SIZE"
    if nt: "\<not> page_touched sector n idx" and dst: "doff + PAGE_SIZE \<le> length dst"
    for idx dst doff
  proof -
    from nt zeroed_touched [of sector idx n]
    have "\<not> (sector div 8 \<le> idx \<and> idx < sector div 8 + n div 4096)"
      by blast
    then have "page_bytes brk' idx = page_bytes brk idx"
      by (simp only: b if_False)
    with read_whole_page [OF inv' dst, of idx] read_whole_page [OF inv dst, of idx]
    show ?thesis
      by (simp add: PAGE_SECTORS_eq)
  qed
  have request: "brk_make_request brk b = Inr (0, b, brk')"
    if "bi_discard b" and "bi_sector b = sector" and "bi_size b = n" for b
  proof -
    from cap that have "bio_end_sector b \<le> capacity brk"
      by (simp add: in_capacity_def bio_end_sector_def SECTOR_SHIFT_def drop_bit_eq_div)
    with that d show ?thesis
      by (simp add: brk_make_request_def)
  qed
  show ?thesis
  proof (rule exI [of _ brk'], intro conjI allI impI)
    show "discard_from_brk brk sector n = Inr brk'" by (rule d)
    show "store_inv brk'" by (rule inv')
    show "brk_pages brk' = brk_pages brk" by (rule t)
    show "avail brk' = avail brk" by (rule a)
  next
    fix idx doff and dst :: "byte list"
    assume "sector mod PAGE_SECTORS = 0"
      and "page_covered sector n idx \<and> doff + PAGE_SIZE \<le> length dst"
    then show "copy_from_brk dst doff brk' (idx * PAGE_SECTORS) PAGE_SIZE
        = Inr (take doff dst @ replicate PAGE_SIZE 0 @ drop (doff + PAGE_SIZE) dst)"
      by (intro covered) simp_all
  next
    fix idx doff and dst :: "byte list"
    assume "\<not> page_touched sector n idx \<and> doff + PAGE_SIZE \<le> length dst"
    then show "copy_from_brk dst doff brk' (idx * PAGE_SECTORS) PAGE_SIZE
        = copy_from_brk dst doff brk (idx * PAGE_SECTORS) PAGE_SIZE"
      by (intro outside) simp_all
  next
    fix b :: bio
    assume "bi_discard b \<and> bi_sector b = sector \<and> bi_size b = n"
    then show "brk_make_request brk b = Inr (0, b, brk')"
      by (intro request) simp_all
  qed
qed

lemma discard_zeroes_aligned_pages_example:
  "store_inv dev_page1 \<and> in_capacity dev_page1 8 4096 \<and> page_covered 8 4096 1 \<and>
   \<not> page_touched 8 4096 0 \<and>
   (\<exists>brk'. discard_from_brk dev_page1 8 4096 = Inr brk' \<and>
      copy_from_brk (replicate 4096 255) 0 brk' 8 4096 = Inr (replicate 4096 0) \<and>
      copy_from_brk (replicate 4096 255) 0 brk' 0 4096
        = copy_from_brk (replicate 4096 255) 0 dev_page1 0 4096)"
proof -
  have c: "in_capacity dev_page1 8 4096"
    by (simp add: in_capacity_def dev_page1_def ULONG_WRAP_def bytes_to_sectors_eq)
  have p: "page_covered 8 4096 1"
    by (simp add: page_covered_def SECTOR_SHIFT_def PAGE_SIZE_eq)
  have t: "\<not> page_touched 8 4096 0"
    by (simp add: page_touched_def SECTOR_SHIFT_def PAGE_SIZE_eq)
  from discard_zeroes_aligned_pages [OF store_inv_dev_page1 c] obtain brk' where
    d: "discard_from_brk dev_page1 8 4096 = Inr brk'"
    and z: "8 mod PAGE_SECTORS = 0 \<longrightarrow>
       (\<forall>idx dst doff. page_covered 8 4096 idx \<and> doff + PAGE_SIZE \<le> length dst \<longrightarrow>
          copy_from_brk dst doff brk' (idx * PAGE_SECTORS) PAGE_SIZE
            = Inr (take doff dst @ replicate PAGE_SIZE 0 @ drop (doff + PAGE_SIZE) dst))"
    and o: "\<forall>idx dst doff. \<not> page_touched 8 4096 idx \<and> doff + PAGE_SIZE \<le> length dst \<longrightarrow>
          copy_from_brk dst doff brk' (idx * PAGE_SECTORS) PAGE_SIZE
            = copy_from_brk dst doff dev_page1 (idx * PAGE_SECTORS) PAGE_SIZE"
    by (elim exE conjE)
  have "copy_from_brk (replicate 4096 255) 0 brk' 8 4096 = Inr (replicate 4096 0)"
    using z [rule_format, of 1 0 "replicate 4096 255"] p
    by (simp add: PAGE_SECTORS_eq PAGE_SIZE_eq)
  moreover have "copy_from_brk (replicate 4096 255) 0 brk' 0 4096
        = copy_from_brk (replicate 4096 255) 0 dev_page1 0 4096"
    using o [rule_format, of 0 0 "replicate 4096 255"] t
    by (simp add: PAGE_SECTORS_eq PAGE_SIZE_eq)
  ultimately show ?thesis
    using store_inv_dev_page1 c p t d by blast
qed

section \<open>Freeing all pages\<close>

lemma store_inv_map_of:
  assumes "store_inv brk" and "(i, p) \<in> set (brk_pages brk)"
  shows "map_of (brk_pages brk) i = Some p"
proof -
  from assms(1) have "distinct (map fst (brk_pages brk))"
    by (simp add: store_inv_iff)
  with assms(2) show ?thesis by simp
qed

lemma store_inv_delete:
  assumes inv: "store_inv brk" and mem: "(i, p) \<in> set (brk_pages brk)"
  shows "store_inv (free_page (brk\<lparr>brk_pages := filter (\<lambda>e. fst e \<noteq> i) (brk_pages brk)\<rparr>) p)"
    (is "store_inv ?brk'")
proof -
  from inv have d: "distinct (map fst (brk_pages brk))"
    and v: "\<And>j q. (j, q) \<in> set (brk_pages brk) \<Longrightarrow>
        \<exists>pg. page_at brk q = Some pg \<and> index pg = j \<and> length (data pg) = PAGE_SIZE"
    and l: "\<And>q. page_at brk q \<noteq> None \<Longrightarrow> q \<in> snd ` set (brk_pages brk)"
    unfolding store_inv_iff by blast+
  have pa: "\<And>q. page_at ?brk' q = (if q = p then None else page_at brk q)"
    by (simp add: page_at_free_page)
  have t: "brk_pages ?brk' = filter (\<lambda>e. fst e \<noteq> i) (brk_pages brk)"
    by simp
  have other: "q \<noteq> p" if "(j, q) \<in> set (brk_pages brk)" and "j \<noteq> i" for j q
  proof
    assume "q = p"
    with that(1) have "map_of (brk_pages brk) j = Some p"
      using inv by (simp add: store_inv_map_of)
    moreover from mem have "map_of (brk_pages brk) i = Some p"
      using inv by (simp add: store_inv_map_of)
    ultimately have "j = i"
      by (rule store_inv_tree_inj [OF inv])
    with that(2) show False by simp
  qed
  show ?thesis
    unfolding store_inv_iff pa t
  proof (intro conjI allI impI)
    show "distinct (map fst (filter (\<lambda>e. fst e \<noteq> i) (brk_pages brk)))"
      using d by (rule distinct_map_filter)
  next
    fix j q assume "(j, q) \<in> set (filter (\<lambda>e. fst e \<noteq> i) (brk_pages brk))"
    then have m: "(j, q) \<in> set (brk_pages brk)" and ne: "j \<noteq> i"
      by simp_all
    from other [OF m ne] v [OF m]
    show "\<exists>pg. (if q = p then None else page_at brk q) = Some pg \<and> index pg = j
        \<and> length (data pg) = PAGE_SIZE"
      by simp
  next
    fix q assume "(if q = p then None else page_at brk q) \<noteq> None"
    then have qp: "q \<noteq> p" and "page_at brk q \<noteq> None"
      by (auto split: if_splits)
    from l [OF this(2)] obtain j where m: "(j, q) \<in> set (brk_pages brk)"
      by auto
    have "j \<noteq> i"
    proof
      assume "j = i"
      with m have "map_of (brk_pages brk) i = Some q"
        using inv by (simp add: store_inv_map_of)
      moreover from mem have "map_of (brk_pages brk) i = Some p"
        using inv by (simp add: store_inv_map_of)
      ultimately show False using qp by simp
    qed
    with m show "q \<in> snd ` set (filter (\<lambda>e. fst e \<noteq> i) (brk_pages brk))"
      by force
  qed
qed

lemma filter_key_set:
  assumes "distinct (map fst t)" and "(i, p) \<in> set t"
  shows "set (filter (\<lambda>e. fst e \<noteq> i) t) = set t - {(i, p)}"
proof -
  have u: "e = (i, p)" if "e \<in> set t" and "fst e = i" for e
  proof -
    obtain j q where e: "e = (j, q)" by (cases e)
    with that have "(i, q) \<in> set t" by simp
    from assms(1) this assms(2) have "q = p" by (rule eq_key_imp_eq_value)
    with e that(2) show ?thesis by simp
  qed
  show ?thesis
  proof (intro set_eqI iffI)
    fix e assume "e \<in> set (filter (\<lambda>e. fst e \<noteq> i) t)"
    then have "e \<in> set t" and "fst e \<noteq> i" by simp_all
    then show "e \<in> set t - {(i, p)}" by auto
  next
    fix e assume "e \<in> set t - {(i, p)}"
    then have m: "e \<in> set t" and ne: "e \<noteq> (i, p)" by simp_all
    from u [OF m] ne have "fst e \<noteq> i" by blast
    with m show "e \<in> set (filter (\<lambda>e. fst e \<noteq> i) t)" by simp
  qed
qed

text \<open>One batch of \<^verbatim>\<open>brk_free_pages\<close>, on slots given by ascending index.\<close>

lemma brk_free_batch_spec:
  assumes "store_inv brk" and "set es \<subseteq> set (brk_pages brk)"
    and "sorted_wrt (<) (map fst es)" and "\<forall>e \<in> set es. pos \<le> fst e"
  shows "\<exists>brk'. brk_free_batch brk pos (map snd es) = Inr (brk', last (pos # map fst es)) \<and>
           store_inv brk' \<and> set (brk_pages brk') = set (brk_pages brk) - set es \<and>
           avail brk' = avail brk \<and> capacity brk' = capacity brk \<and> klog brk' = klog brk \<and>
           bd_openers brk' = bd_openers brk"
  using assms
proof (induction es arbitrary: brk pos)
  case Nil
  then show ?case by simp
next
  case (Cons e es)
  obtain i p where e: "e = (i, p)" by (cases e)
  from Cons.prems(2) e have mem: "(i, p) \<in> set (brk_pages brk)" by simp
  from Cons.prems(1) mem have mo: "map_of (brk_pages brk) i = Some p"
    by (rule store_inv_map_of)
  with Cons.prems(1) obtain pg where pg: "page_at brk p = Some pg" and ipg: "index pg = i"
    by (rule tree_okD [OF store_inv_tree_ok])
  from Cons.prems(4) e have pos: "pos \<le> i" by simp
  let ?t = "filter (\<lambda>e. fst e \<noteq> i) (brk_pages brk)"
  let ?brk1 = "free_page (brk\<lparr>brk_pages := ?t\<rparr>) p"
  have i1: "store_inv ?brk1"
    using Cons.prems(1) mem by (rule store_inv_delete)
  from Cons.prems(1) have d: "distinct (map fst (brk_pages brk))"
    by (simp add: store_inv_iff)
  have t1: "set (brk_pages ?brk1) = set (brk_pages brk) - {(i, p)}"
    using filter_key_set [OF d mem] by simp
  from Cons.prems(3) e have gt: "\<forall>e' \<in> set es. i < fst e'" and s: "sorted_wrt (<) (map fst es)"
    by auto
  from gt have "(i, p) \<notin> set es" by force
  with Cons.prems(2) t1 have sub: "set es \<subseteq> set (brk_pages ?brk1)"
    by auto
  from gt have ge: "\<forall>e' \<in> set es. i \<le> fst e'"
    by (simp add: less_imp_le)
  from Cons.IH [OF i1 sub s ge] obtain brk' where
    r: "brk_free_batch ?brk1 i (map snd es) = Inr (brk', last (i # map fst es))"
    and i': "store_inv brk'" and t': "set (brk_pages brk') = set (brk_pages ?brk1) - set es"
    and o: "avail brk' = avail ?brk1" "capacity brk' = capacity ?brk1" "klog brk' = klog ?brk1"
      "bd_openers brk' = bd_openers ?brk1"
    by blast
  have "brk_free_batch brk pos (map snd (e # es)) = Inr (brk', last (pos # map fst (e # es)))"
    using pg ipg pos mo r e by (simp add: radix_tree_delete_def)
  moreover have "set (brk_pages brk') = set (brk_pages brk) - set (e # es)"
    unfolding t' t1 e by auto
  ultimately show ?case
    using i' o by (simp add: free_page_def)
qed

lemma sorted_keys_strict:
  assumes "distinct (map fst t)"
  shows "sorted_wrt (<) (map fst (sort_key fst t))"
proof -
  have "distinct (map fst (sort_key fst t)) = distinct (map fst t)"
    by (simp add: distinct_map)
  with assms have "distinct (map fst (sort_key fst t))" by simp
  moreover have "sorted (map fst (sort_key fst t))"
    by (rule sorted_sort_key)
  ultimately show ?thesis
    by (simp add: strict_sorted_iff)
qed

lemma take_drop_keys:
  assumes "sorted_wrt (<) (map fst S)" and "x \<in> set (take k S)" and "y \<in> set (drop k S)"
  shows "fst x < fst (y :: nat \<times> nat)"
proof -
  have "map fst S = map fst (take k S) @ map fst (drop k S)"
    by (simp flip: map_append)
  with assms(1) have "\<forall>a \<in> set (map fst (take k S)). \<forall>b \<in> set (map fst (drop k S)). a < b"
    by (simp add: sorted_wrt_append)
  with assms(2,3) show ?thesis by simp
qed

lemma set_minus_take:
  assumes "distinct (map fst S)"
  shows "set S - set (take k S) = set (drop k S)"
proof -
  from assms have "distinct S" by (simp add: distinct_map)
  then have "distinct (take k S @ drop k S)" by simp
  then have "set (take k S) \<inter> set (drop k S) = {}" by (simp only: distinct_append)
  moreover have "set S = set (take k S) \<union> set (drop k S)"
    by (simp flip: set_append)
  ultimately show ?thesis by auto
qed

text \<open>The \<^verbatim>\<open>do ... while\<close> loop of \<^verbatim>\<open>brk_free_pages\<close> empties the tree and returns.\<close>

lemma brk_free_from_spec:
  assumes "store_inv brk" and "\<forall>e \<in> set (brk_pages brk). pos \<le> fst e"
  shows "\<exists>brk'. brk_free_from brk pos = Inr brk' \<and> store_inv brk' \<and> brk_pages brk' = [] \<and>
           avail brk' = avail brk \<and> capacity brk' = capacity brk \<and> klog brk' = klog brk \<and>
           bd_openers brk' = bd_openers brk"
  using assms
proof (induction brk pos rule: brk_free_from.induct)
  case (1 brk pos)
  let ?t = "brk_pages brk"
  let ?S = "sort_key fst ?t"
  let ?es = "take FREE_BATCH ?S"
  from "1.prems"(2) have flt: "filter (\<lambda>e. pos \<le> fst e) ?t = ?t"
    by (simp add: filter_id_conv)
  have pages: "radix_tree_gang_lookup ?t pos FREE_BATCH = map snd ?es"
    by (simp add: radix_tree_gang_lookup_def flt take_map)
  from "1.prems"(1) have d: "distinct (map fst ?t)"
    by (simp add: store_inv_iff)
  then have ss: "sorted_wrt (<) (map fst ?S)"
    by (rule sorted_keys_strict)
  then have dS: "distinct (map fst ?S)"
    by (simp add: strict_sorted_iff)
  have sub: "set ?es \<subseteq> set ?t"
    using set_take_subset [of FREE_BATCH ?S] by simp
  have se: "sorted_wrt (<) (map fst ?es)"
    using ss by (simp add: take_map [symmetric] sorted_wrt_take)
  have ge: "\<forall>e \<in> set ?es. pos \<le> fst e"
    using sub "1.prems"(2) by blast
  from brk_free_batch_spec [OF "1.prems"(1) sub se ge] obtain brk1 where
    b: "brk_free_batch brk pos (map snd ?es) = Inr (brk1, last (pos # map fst ?es))"
    and i1: "store_inv brk1" and t1: "set (brk_pages brk1) = set ?t - set ?es"
    and o: "avail brk1 = avail brk" "capacity brk1 = capacity brk" "klog brk1 = klog brk"
      "bd_openers brk1 = bd_openers brk"
    by blast
  have rest: "set (brk_pages brk1) = set (drop FREE_BATCH ?S)"
    using set_minus_take [OF dS, of FREE_BATCH] t1 by simp
  have unf: "brk_free_from brk pos =
      bind_f (brk_free_batch brk pos (map snd ?es)) (\<lambda>(brk', pos').
        if length (map snd ?es) = FREE_BATCH
        then brk_free_from brk' ((pos' + 1) mod ULONG_WRAP) else Inr brk')"
    by (subst brk_free_from.simps) (simp only: pages Let_def)
  show ?case
  proof (cases "length (map snd ?es) = FREE_BATCH")
    case False
    then have "length ?S < FREE_BATCH" by simp
    then have "drop FREE_BATCH ?S = []" by simp
    with rest have "brk_pages brk1 = []" by simp
    moreover have "brk_free_from brk pos = Inr brk1"
      unfolding unf by (simp only: b bind_f_Inr prod.case False if_False)
    ultimately show ?thesis
      using i1 o by simp
  next
    case True
    let ?pos' = "(last (pos # map fst ?es) + 1) mod ULONG_WRAP"
    have ne: "?es \<noteq> []"
    proof
      assume a: "?es = []"
      from True have "length (map snd ?es) = 16" by (simp only: FREE_BATCH_def)
      moreover have "length (map snd ?es) = 0" unfolding a by simp
      ultimately show False by simp
    qed
    then have lst: "last (pos # map fst ?es) = fst (last ?es)"
      by (simp add: last_map)
    from ne have lm: "last ?es \<in> set ?es" by (rule last_in_set)
    have nxt: "\<forall>e \<in> set (brk_pages brk1). ?pos' \<le> fst e"
    proof
      fix e assume "e \<in> set (brk_pages brk1)"
      with rest have "e \<in> set (drop FREE_BATCH ?S)" by simp
      with ss lm have "fst (last ?es) < fst e" by (rule take_drop_keys)
      then have "fst (last ?es) + 1 \<le> fst e" by simp
      moreover have "?pos' \<le> fst (last ?es) + 1"
        unfolding lst by (rule mod_less_eq_dividend)
      ultimately show "?pos' \<le> fst e" by (rule order_trans [rotated])
    qed
    from "1.IH" [OF refl refl b [unfolded pages [symmetric]] refl
        True [unfolded pages [symmetric]] i1 nxt]
    obtain brk' where
      r: "brk_free_from brk1 ?pos' = Inr brk'" and i': "store_inv brk'"
      and e: "brk_pages brk' = []"
      and o': "avail brk' = avail brk1" "capacity brk' = capacity brk1" "klog brk' = klog brk1"
        "bd_openers brk' = bd_openers brk1"
      by blast
    have "brk_free_from brk pos = Inr brk'"
      unfolding unf by (simp only: b bind_f_Inr prod.case True r) simp
    with i' e o o' show ?thesis by simp
  qed
qed

lemma two_memsets:
  assumes "c \<le> n" and "doff + n \<le> length dst"
  shows "bind_f (memset dst doff v c) (\<lambda>d1. memset d1 (doff + c) v (n - c))
           = Inr (splice dst doff (replicate n v))"
proof -
  let ?d1 = "splice dst doff (replicate c v)"
  from assms have dc: "doff + c \<le> length dst" by (rule add_le_trans)
  then have m1: "memset dst doff v c = Inr ?d1" by (rule memset_splice)
  have "length ?d1 = length dst"
    using dc by (intro length_splice) simp
  with assms have "doff + c + (n - c) \<le> length ?d1" by simp
  then have m2: "memset ?d1 (doff + c) v (n - c) = Inr (splice ?d1 (doff + c) (replicate (n - c) v))"
    by (rule memset_splice)
  have "splice ?d1 (doff + c) (replicate (n - c) v)
      = splice dst doff (replicate c v @ replicate (n - c) v)"
    using assms by (intro splice_two_parts) simp_all
  also have "replicate c v @ replicate (n - c) v = replicate n v"
    using assms(1) by (simp flip: replicate_add)
  finally show ?thesis
    by (simp only: m1 bind_f_Inr m2)
qed

lemma copy_from_brk_empty:
  assumes e: "brk_pages brk = []" and dst: "doff + n \<le> length dst"
  shows "copy_from_brk dst doff brk sector n = Inr (splice dst doff (replicate n 0))"
proof -
  let ?X = "4096 - (sector mod 8) * 512"
  have l: "\<And>s. brk_lookup_page brk s = Inr None"
    by (simp add: brk_lookup_page_eq e)
  show ?thesis
  proof (cases "crosses_page sector n")
    case True
    then have lt: "?X < n" by (simp only: crosses_page_eq)
    then have m: "min n ?X = ?X" by (simp only: min_def) (simp only: not_le [symmetric] if_False)
    from lt have le: "?X \<le> n" by (rule less_imp_le)
    have "copy_from_brk dst doff brk sector n
        = bind_f (memset dst doff 0 ?X) (\<lambda>d1. memset d1 (doff + ?X) 0 (n - ?X))"
      unfolding copy_from_brk_eq' l m by (simp only: bind_f_Inr option.case True if_True)
    also have "\<dots> = Inr (splice dst doff (replicate n 0))"
      using le dst by (rule two_memsets)
    finally show ?thesis .
  next
    case False
    then have "\<not> ?X < n" unfolding crosses_page_eq .
    then have "n \<le> ?X" by (rule leI)
    then have m: "min n ?X = n" by (rule min.absorb1)
    have "copy_from_brk dst doff brk sector n = memset dst doff 0 n"
      unfolding copy_from_brk_eq' l m
      by (simp only: bind_f_Inr option.case False if_False bind_f_Inr_right)
    also have "\<dots> = Inr (splice dst doff (replicate n 0))"
      using dst by (rule memset_splice)
    finally show ?thesis .
  qed
qed

lemma store_inv_empty_pages:
  assumes "store_inv brk" and "brk_pages brk = []"
  shows "page_at brk p = None"
proof (rule ccontr)
  assume "page_at brk p \<noteq> None"
  with assms(1) have "p \<in> snd ` set (brk_pages brk)"
    unfolding store_inv_iff by blast
  with assms(2) show False by simp
qed

section \<open>The invariant across the operations\<close>



















section \<open>The claims\<close>

text \<open>
  C1. When \<^verbatim>\<open>copy_to_brk\<close> has written the \<open>n\<close> bytes at \<open>src + soff\<close> to the range from
  \<open>sector\<close> (a \<^verbatim>\<open>sector_t\<close>, as every sector inside the capacity is), \<^verbatim>\<open>copy_from_brk\<close> of
  the same range stores exactly these bytes at the destination and leaves the rest of the
  destination alone, whether or not the range runs across a page boundary. The first page
  of the range holds the source bytes themselves from the offset of the sector on; the
  digest computation leaves nothing but its calls in the log.
\<close>

theorem write_then_read_returns_data:
  assumes "copy_to_brk brk src soff sector n = Inr brk'"
    and "sector < ULONG_WRAP"
    and "doff + n \<le> length dst"
  shows "copy_from_brk dst doff brk' sector n
           = Inr (take doff dst @ take n (drop soff src) @ drop (doff + n) dst) \<and>
         page_bytes brk' (sector div PAGE_SECTORS)
           = splice (page_bytes brk (sector div PAGE_SECTORS))
               (push_bit SECTOR_SHIFT (sector AND (PAGE_SECTORS - 1)))
               (take (min n (PAGE_SIZE - push_bit SECTOR_SHIFT (sector AND (PAGE_SECTORS - 1))))
                  (drop soff src)) \<and>
         klog brk' = klog brk @ digest_calls"
proof -
  from copy_write_read [OF assms] have "soff + n \<le> length src"
    by simp
  then have "length (take n (drop soff src)) = n"
    by simp
  then have "splice dst doff (take n (drop soff src))
      = take doff dst @ take n (drop soff src) @ drop (doff + n) dst"
    by (simp add: splice_def)
  with copy_write_read [OF assms] show ?thesis
    unfolding sector_offset_eq unfolding PAGE_SIZE_eq PAGE_SECTORS_eq
    by (simp only:)
qed

text \<open>
  The 1024 bytes written from sector 7 of a new device lie in the last sector of page 0 and
  the first of page 1.
\<close>

theorem write_then_read_returns_data_witness:
  "\<exists>brk1 brk2.
     copy_to_brk_setup (new_dev [True, True, True, True]) 7 1024 = Inr (0, brk1) \<and>
     copy_to_brk brk1 (replicate 1024 66) 0 7 1024 = Inr brk2 \<and>
     copy_from_brk (replicate 1024 0) 0 brk2 7 1024 = Inr (replicate 1024 66)"
proof -
  have s: "\<exists>brk1. copy_to_brk_setup (new_dev [True, True, True, True]) 7 1024 = Inr (0, brk1)
      \<and> (\<exists>brk2. copy_to_brk brk1 (replicate 1024 66) 0 7 1024 = Inr brk2)"
    by (simp add: copy_to_brk_setup_eq crosses_page_eq new_dev_def brk_insert_page_def
        brk_lookup_page_eq alloc_page_def radix_tree_preload_def brk_insert_locked_def
        page_at_def set_page_def radix_tree_insert_def sector_index_eq ULONG_WRAP_def
        copy_to_brk_eq memcpy_to_page_def memcpy_def kcalls_def PAGE_SIZE_eq)
  then obtain brk1 brk2 where
    a: "copy_to_brk_setup (new_dev [True, True, True, True]) 7 1024 = Inr (0, brk1)"
    and b: "copy_to_brk brk1 (replicate 1024 66) 0 7 1024 = Inr brk2"
    by blast
  have "copy_from_brk (replicate 1024 0) 0 brk2 7 1024 = Inr (replicate 1024 66)"
    using write_then_read_returns_data [OF b, of 0 "replicate 1024 0"]
    by (simp add: ULONG_WRAP_def)
  with a b show ?thesis by blast
qed

text \<open>
  C2. A read of a range inside the capacity, none of whose pages has a slot in the radix
  tree, stores \<open>n\<close> zero bytes at the destination and nothing else; the missing slots are
  not an error (the result is \<open>Inr\<close>).
\<close>

theorem read_unwritten_is_zero:
  assumes "in_capacity brk sector n"
    and "\<forall>idx. page_touched sector n idx \<longrightarrow> radix_tree_lookup (brk_pages brk) idx = None"
    and "0 < n"
    and "doff + n \<le> length dst"
  shows "copy_from_brk dst doff brk sector n =
           Inr (take doff dst @ replicate n 0 @ drop (doff + n) dst)"
  using assms by (rule copy_from_brk_absent)

theorem read_unwritten_is_zero_witness:
  "in_capacity (new_dev []) 7 1024 \<and>
   copy_from_brk (replicate 1024 255) 0 (new_dev []) 7 1024 = Inr (replicate 1024 0)"
proof -
  have c: "in_capacity (new_dev []) 7 1024"
    by (simp add: in_capacity_def new_dev_def ULONG_WRAP_def bytes_to_sectors_eq)
  have a: "\<forall>idx. page_touched 7 1024 idx \<longrightarrow>
             radix_tree_lookup (brk_pages (new_dev [])) idx = None"
    by (simp add: radix_tree_lookup_def new_dev_def)
  show ?thesis
    using c read_unwritten_is_zero [OF c a, of 0 "replicate 1024 255"] by simp
qed

text \<open>
  C6. On a well-formed store and a range inside the capacity, \<^verbatim>\<open>copy_to_brk_setup\<close> returns
  \<open>0\<close> or \<open>- ENOSPC\<close>. It returns \<open>- ENOSPC\<close> exactly when one of its calls of
  \<^verbatim>\<open>brk_insert_page\<close> returns no page: the call for the page of \<open>sector\<close>, or, when the
  range runs past that page, the call for the next page (which is made only after the first
  has succeeded). For a non-empty range with at most one boundary crossing these are the
  pages the range touches, so the status is \<open>0\<close> exactly when every touched page has a slot
  afterwards. Whatever the status, the store stays well-formed, every page it had is still
  there unchanged, and what the first call inserted is kept: nothing is rolled back.
\<close>

theorem copy_to_brk_setup_ensures:
  assumes inv: "store_inv brk" and cap: "in_capacity brk sector n"
  shows "\<exists>err brk'. copy_to_brk_setup brk sector n = Inr (err, brk') \<and>
           (err = 0 \<or> err = - ENOSPC) \<and>
           (err = - ENOSPC \<longleftrightarrow>
              (\<exists>b. brk_insert_page brk sector = Inr (None, b)) \<or>
              (crosses_page sector n \<and>
               (\<exists>p b b'. brk_insert_page brk sector = Inr (Some p, b) \<and>
                  brk_insert_page b (PAGE_SECTORS * (sector div PAGE_SECTORS + 1)) = Inr (None, b')))) \<and>
           (0 < n \<and> single_crossing sector n \<longrightarrow>
              (err = 0 \<longleftrightarrow>
                 (\<forall>idx. page_touched sector n idx \<longrightarrow>
                    radix_tree_lookup (brk_pages brk') idx \<noteq> None))) \<and>
           store_inv brk' \<and> store_extends brk brk' \<and>
           (\<forall>p b. brk_insert_page brk sector = Inr (Some p, b) \<longrightarrow> store_extends b brk')"
proof -
  let ?s' = "(sector + (4096 - (sector mod 8) * 512) div 512) mod ULONG_WRAP"
  from copy_to_brk_setup_spec [OF inv cap] obtain err brk' where
    res: "copy_to_brk_setup brk sector n = Inr (err, brk')"
    and err: "err = 0 \<or> err = - ENOSPC"
    and inv': "store_inv brk'" and ext: "store_extends brk brk'"
    and ok: "err = 0 \<longleftrightarrow>
              map_of (brk_pages brk') (sector div 8) \<noteq> None \<and>
              (crosses_page sector n \<longrightarrow> map_of (brk_pages brk') (sector div 8 + 1) \<noteq> None)"
    by blast
  from brk_insert_page_spec [OF inv, of sector] obtain r1 brk1 where
    i1: "brk_insert_page brk sector = Inr (r1, brk1)" and inv1: "store_inv brk1"
    by blast
  from brk_insert_page_spec [OF inv1, of ?s'] obtain r2 brk2 where
    i2: "brk_insert_page brk1 ?s' = Inr (r2, brk2)" and ext2: "store_extends brk1 brk2"
    by blast
  have s': "crosses_page sector n \<Longrightarrow> ?s' = PAGE_SECTORS * (sector div PAGE_SECTORS + 1)"
    using crossing_sector' [OF cap] by (simp add: PAGE_SECTORS_eq)
  have nz: "- ENOSPC \<noteq> (0::int)"
    by (simp add: ENOSPC_def)
  have calls: "(err = - ENOSPC \<longleftrightarrow>
              (\<exists>b. brk_insert_page brk sector = Inr (None, b)) \<or>
              (crosses_page sector n \<and>
               (\<exists>p b b'. brk_insert_page brk sector = Inr (Some p, b) \<and>
                  brk_insert_page b (PAGE_SECTORS * (sector div PAGE_SECTORS + 1)) = Inr (None, b')))) \<and>
           (\<forall>p b. brk_insert_page brk sector = Inr (Some p, b) \<longrightarrow> store_extends b brk')"
  proof (cases r1)
    case None
    with res i1 have "err = - ENOSPC" "brk' = brk1"
      by (simp_all add: copy_to_brk_setup_eq)
    with None i1 show ?thesis by simp
  next
    case (Some p)
    show ?thesis
    proof (cases "crosses_page sector n")
      case False
      with Some res i1 have "err = 0" "brk' = brk1"
        by (simp_all add: copy_to_brk_setup_eq)
      with Some i1 False nz show ?thesis
        by (simp add: store_extends_refl)
    next
      case True
      with Some res i1 i2 have "err = (if r2 = None then - ENOSPC else 0)" "brk' = brk2"
        by (auto simp: copy_to_brk_setup_eq split: if_splits)
      with Some i1 i2 True nz ext2 s' [OF True] show ?thesis
        by auto
    qed
  qed
  have touched: "0 < n \<and> single_crossing sector n \<longrightarrow>
              (err = 0 \<longleftrightarrow>
                 (\<forall>idx. page_touched sector n idx \<longrightarrow>
                    radix_tree_lookup (brk_pages brk') idx \<noteq> None))"
    using ok by (simp add: touched_iff_single_crossing radix_tree_lookup_def)
  from res err calls touched inv' ext show ?thesis
    by blast
qed

theorem copy_to_brk_setup_ensures_witness:
  "store_inv (new_dev [True, True, True]) \<and> in_capacity (new_dev [True, True, True]) 7 1024 \<and>
   (\<exists>brk'. copy_to_brk_setup (new_dev [True, True, True]) 7 1024 = Inr (- ENOSPC, brk') \<and>
      store_inv brk' \<and> store_extends (new_dev [True, True, True]) brk' \<and>
      radix_tree_lookup (brk_pages brk') 0 = Some 0 \<and>
      radix_tree_lookup (brk_pages brk') 1 = None)"
proof -
  let ?d = "new_dev [True, True, True]"
  have i: "store_inv ?d"
    by (simp add: store_inv_def tree_ok_def no_leak_def new_dev_def)
  have c: "in_capacity ?d 7 1024"
    by (simp add: in_capacity_def new_dev_def ULONG_WRAP_def bytes_to_sectors_eq)
  have e: "\<exists>brk'. copy_to_brk_setup ?d 7 1024 = Inr (- ENOSPC, brk') \<and>
      radix_tree_lookup (brk_pages brk') 0 = Some 0 \<and>
      radix_tree_lookup (brk_pages brk') 1 = None"
    by (simp add: copy_to_brk_setup_eq crosses_page_eq new_dev_def brk_insert_page_def
        brk_lookup_page_eq alloc_page_def radix_tree_preload_def brk_insert_locked_def
        page_at_def set_page_def free_page_def radix_tree_insert_def radix_tree_lookup_def
        sector_index_eq ULONG_WRAP_def)
  from copy_to_brk_setup_ensures [OF i c] e have
    "\<exists>brk'. copy_to_brk_setup ?d 7 1024 = Inr (- ENOSPC, brk') \<and>
      store_inv brk' \<and> store_extends ?d brk' \<and>
      radix_tree_lookup (brk_pages brk') 0 = Some 0 \<and>
      radix_tree_lookup (brk_pages brk') 1 = None"
    by auto
  with i c show ?thesis by blast
qed

text \<open>
  C8. After a \<^verbatim>\<open>copy_to_brk_setup\<close> that returned \<open>0\<close> for the range, the page of \<open>sector\<close>
  and, when the range runs past it, the next page have slots; \<^verbatim>\<open>copy_to_brk\<close> for the same
  range never stops at the assertions of lines 260 and 295, and it succeeds when the range
  has at most one boundary crossing and the source buffer holds \<open>n\<close> bytes.
\<close>

theorem write_phase_pages_exist:
  assumes inv: "store_inv brk" and cap: "in_capacity brk sector n"
    and prep: "copy_to_brk_setup brk sector n = Inr (0, brk1)"
  shows "radix_tree_lookup (brk_pages brk1) (sector div PAGE_SECTORS) \<noteq> None \<and>
         (crosses_page sector n \<longrightarrow>
            radix_tree_lookup (brk_pages brk1) (sector div PAGE_SECTORS + 1) \<noteq> None) \<and>
         copy_to_brk brk1 src soff sector n \<noteq> Inl (BUG 260) \<and>
         copy_to_brk brk1 src soff sector n \<noteq> Inl (BUG 295) \<and>
         (single_crossing sector n \<and> soff + n \<le> length src \<longrightarrow>
            (\<exists>brk2. copy_to_brk brk1 src soff sector n = Inr brk2))"
proof -
  let ?s' = "(sector + (4096 - (sector mod 8) * 512) div 512) mod ULONG_WRAP"
  from copy_to_brk_setup_spec [OF inv cap] prep have inv1: "store_inv brk1"
    and p1: "map_of (brk_pages brk1) (sector div 8) \<noteq> None"
    and p2: "crosses_page sector n \<Longrightarrow> map_of (brk_pages brk1) (sector div 8 + 1) \<noteq> None"
    by auto
  have p2': "crosses_page sector n \<Longrightarrow> map_of (brk_pages brk1) (?s' div 8) \<noteq> None"
  proof -
    assume c: "crosses_page sector n"
    have "?s' div 8 = sector div 8 + 1"
      using crossing_sector' [OF cap c] by simp
    with p2 [OF c] show ?thesis by simp
  qed
  from copy_to_brk_present [OF inv1 p1 p2', where src = src and soff = soff]
  have nobug: "(\<exists>brk'. copy_to_brk brk1 src soff sector n = Inr brk') \<or>
           copy_to_brk brk1 src soff sector n = Inl Bad_access"
    and ok: "single_crossing sector n \<Longrightarrow> soff + n \<le> length src \<Longrightarrow>
           \<exists>brk'. copy_to_brk brk1 src soff sector n = Inr brk'"
    by blast+
  from nobug have "copy_to_brk brk1 src soff sector n \<noteq> Inl (BUG 260)"
    and "copy_to_brk brk1 src soff sector n \<noteq> Inl (BUG 295)"
    by auto
  with p1 p2 ok show ?thesis
    by (simp add: radix_tree_lookup_def PAGE_SECTORS_eq)
qed

theorem write_phase_pages_exist_witness:
  "store_inv (new_dev [True, True, True, True]) \<and>
   in_capacity (new_dev [True, True, True, True]) 7 1024 \<and>
   single_crossing 7 1024 \<and> crosses_page 7 1024 \<and>
   (\<exists>brk1 brk2. copy_to_brk_setup (new_dev [True, True, True, True]) 7 1024 = Inr (0, brk1) \<and>
      radix_tree_lookup (brk_pages brk1) 1 \<noteq> None \<and>
      copy_to_brk brk1 (replicate 1024 66) 0 7 1024 = Inr brk2)"
proof -
  let ?d = "new_dev [True, True, True, True]"
  have i: "store_inv ?d"
    by (simp add: store_inv_def tree_ok_def no_leak_def new_dev_def)
  have c: "in_capacity ?d 7 1024"
    by (simp add: in_capacity_def new_dev_def ULONG_WRAP_def bytes_to_sectors_eq)
  have sc: "single_crossing 7 1024" and cr: "crosses_page 7 1024"
    by (simp_all add: single_crossing_eq crosses_page_eq)
  have "\<exists>brk1. copy_to_brk_setup ?d 7 1024 = Inr (0, brk1)"
    by (simp add: copy_to_brk_setup_eq crosses_page_eq new_dev_def brk_insert_page_def
        brk_lookup_page_eq alloc_page_def radix_tree_preload_def brk_insert_locked_def
        page_at_def set_page_def radix_tree_insert_def sector_index_eq ULONG_WRAP_def)
  then obtain brk1 where s: "copy_to_brk_setup ?d 7 1024 = Inr (0, brk1)" ..
  from write_phase_pages_exist [OF i c s, where src = "replicate 1024 66" and soff = 0] sc cr
  have "radix_tree_lookup (brk_pages brk1) 1 \<noteq> None"
    and "\<exists>brk2. copy_to_brk brk1 (replicate 1024 66) 0 7 1024 = Inr brk2"
    by (simp_all add: PAGE_SECTORS_eq)
  with i c sc cr s show ?thesis by blast
qed

text \<open>
  C3. The write phase does allocate: a write of one sector to a new device, after its
  preparation, leaves in the log the calls of \<^verbatim>\<open>copy_to_brk\<close>, among them
  \<^verbatim>\<open>crypto_alloc_hash\<close>, which allocates memory and may sleep. (\<^verbatim>\<open>copy_from_brk\<close> makes
  no call that is logged.)
\<close>

theorem copy_to_brk_allocates:
  "\<exists>brk1 brk2.
     copy_to_brk_setup (new_dev [True, True]) 0 512 = Inr (0, brk1) \<and>
     copy_to_brk brk1 (replicate 512 66) 0 0 512 = Inr brk2 \<and>
     klog brk2 = digest_calls \<and>
     Crypto_alloc_hash \<in> set (klog brk2) \<and> may_sleep_or_allocate Crypto_alloc_hash"
proof -
  have "\<exists>brk1. copy_to_brk_setup (new_dev [True, True]) 0 512 = Inr (0, brk1)
      \<and> klog brk1 = []
      \<and> (\<exists>brk2. copy_to_brk brk1 (replicate 512 66) 0 0 512 = Inr brk2)"
    by (simp add: copy_to_brk_setup_eq crosses_page_eq new_dev_def brk_insert_page_def
        brk_lookup_page_eq alloc_page_def radix_tree_preload_def brk_insert_locked_def
        page_at_def set_page_def radix_tree_insert_def sector_index_eq ULONG_WRAP_def
        copy_to_brk_eq memcpy_to_page_def memcpy_def kcalls_def PAGE_SIZE_eq)
  then obtain brk1 brk2 where
    a: "copy_to_brk_setup (new_dev [True, True]) 0 512 = Inr (0, brk1)"
    and k: "klog brk1 = []"
    and b: "copy_to_brk brk1 (replicate 512 66) 0 0 512 = Inr brk2"
    by blast
  from copy_write_read [OF b, where doff = 0 and dst = "replicate 512 0"] k
  have l: "klog brk2 = digest_calls"
    by (simp add: ULONG_WRAP_def)
  have "Crypto_alloc_hash \<in> set digest_calls"
    by (simp add: digest_calls_def)
  moreover have "may_sleep_or_allocate Crypto_alloc_hash"
    by (simp add: may_sleep_or_allocate_def)
  ultimately show ?thesis
    using a b l by auto
qed

text \<open>
  C4. A defect of \<^verbatim>\<open>discard_from_brk\<close>: it zeroes the whole page holding the current
  sector and steps by whole pages from the start sector, aligned or not, although the
  driver announces \<^verbatim>\<open>discard_zeroes_data\<close>. The discard of 6144 bytes from sector 4 covers
  page 1 (bytes 4096 to 8191) completely, and the request is answered with the status
  \<open>0\<close>; yet only the page holding sector 4 is visited, so page 1 still reads as it did,
  and the first 2048 bytes of page 0, which lie before the range, read as zeroes.
\<close>

theorem discard_unaligned_skips_covered_page:
  "store_inv dev_pages01 \<and> in_capacity dev_pages01 4 6144 \<and>
   page_covered 4 6144 1 \<and> \<not> page_covered 4 6144 0 \<and>
   (\<exists>brk'. brk_make_request dev_pages01 bio_discard_4 = Inr (0, bio_discard_4, brk') \<and>
      discard_from_brk dev_pages01 4 6144 = Inr brk' \<and>
      copy_from_brk (replicate 4096 0) 0 brk' (1 * PAGE_SECTORS) PAGE_SIZE
        = Inr (replicate 4096 65) \<and>
      copy_from_brk (replicate 2048 0) 0 dev_pages01 0 2048 = Inr (replicate 2048 65) \<and>
      copy_from_brk (replicate 2048 65) 0 brk' 0 2048 = Inr (replicate 2048 0))"
proof -
  let ?brk' = "set_page dev_pages01 0 \<lparr>index = 0, data = replicate PAGE_SIZE 0\<rparr>"
  have i: "store_inv dev_pages01"
    by (simp add: store_inv_def tree_ok_def no_leak_def dev_pages01_def page_at_def
        nth_Cons')
  have c: "in_capacity dev_pages01 4 6144"
    by (simp add: in_capacity_def dev_pages01_def ULONG_WRAP_def bytes_to_sectors_eq)
  have p: "page_covered 4 6144 1"
    by (simp add: page_covered_def SECTOR_SHIFT_def PAGE_SIZE_eq)
  have q: "\<not> page_covered 4 6144 0"
    by (simp add: page_covered_def SECTOR_SHIFT_def PAGE_SIZE_eq)
  have z: "brk_zero_page dev_pages01 4 = Inr ?brk'"
    by (simp add: brk_zero_page_def brk_lookup_page_eq dev_pages01_def clear_highpage_def
        page_at_def)
  have "discard_from_brk dev_pages01 4 6144
      = bind_f (brk_zero_page dev_pages01 4) (\<lambda>brk'. discard_from_brk brk' 12 2048)"
    by (subst discard_from_brk.simps)
      (simp add: PAGE_SIZE_eq bytes_to_sectors_eq ULONG_WRAP_def)
  also have "\<dots> = discard_from_brk ?brk' 12 2048"
    by (simp only: z bind_f_Inr)
  also have "\<dots> = Inr ?brk'"
    by (subst discard_from_brk.simps) (simp add: PAGE_SIZE_eq)
  finally have d: "discard_from_brk dev_pages01 4 6144 = Inr ?brk'" .
  have e: "\<not> capacity dev_pages01 < bio_end_sector bio_discard_4"
    by (simp add: bio_end_sector_def bio_discard_4_def dev_pages01_def SECTOR_SHIFT_def
        drop_bit_eq_div ULONG_WRAP_def)
  have m: "brk_make_request dev_pages01 bio_discard_4 = Inr (0, bio_discard_4, ?brk')"
    using e d by (simp add: brk_make_request_def bio_discard_4_def)
  have r1: "copy_from_brk (replicate 4096 0) 0 ?brk' (1 * PAGE_SECTORS) PAGE_SIZE
      = Inr (replicate 4096 65)"
    by (simp add: copy_from_brk_eq' crosses_page_eq PAGE_SECTORS_eq PAGE_SIZE_eq
        brk_lookup_page_eq dev_pages01_def page_at_def set_page_def memcpy_def
        bind_f_Inr_right)
  have r0: "copy_from_brk (replicate 2048 0) 0 dev_pages01 0 2048 = Inr (replicate 2048 65)"
    by (simp add: copy_from_brk_eq' crosses_page_eq PAGE_SECTORS_eq PAGE_SIZE_eq
        brk_lookup_page_eq dev_pages01_def page_at_def set_page_def memcpy_def
        bind_f_Inr_right)
  have r0': "copy_from_brk (replicate 2048 65) 0 ?brk' 0 2048 = Inr (replicate 2048 0)"
    by (simp add: copy_from_brk_eq' crosses_page_eq PAGE_SECTORS_eq PAGE_SIZE_eq
        brk_lookup_page_eq dev_pages01_def page_at_def set_page_def memcpy_def
        bind_f_Inr_right)
  from m d r1 r0 r0' have "\<exists>brk'. brk_make_request dev_pages01 bio_discard_4 = Inr (0, bio_discard_4, brk') \<and>
      discard_from_brk dev_pages01 4 6144 = Inr brk' \<and>
      copy_from_brk (replicate 4096 0) 0 brk' (1 * PAGE_SECTORS) PAGE_SIZE
        = Inr (replicate 4096 65) \<and>
      copy_from_brk (replicate 2048 0) 0 dev_pages01 0 2048 = Inr (replicate 2048 65) \<and>
      copy_from_brk (replicate 2048 65) 0 brk' 0 2048 = Inr (replicate 2048 0)"
    by (intro exI [of _ ?brk'] conjI)
  with i c p q show ?thesis
    by (intro conjI)
qed

text \<open>
  C5. A request whose end sector exceeds the capacity is answered at once with the error
  status \<open>- EIO\<close>; the request with the memory of its segments and the device, allocator
  and log included, are what they were: no segment is processed.
\<close>

theorem request_beyond_capacity_fails:
  assumes "bio_end_sector b > capacity brk"
  shows "brk_make_request brk b = Inr (- EIO, b, brk)"
  using assms by (simp add: brk_make_request_def Let_def)

theorem request_beyond_capacity_fails_witness:
  "bio_end_sector bio_2040 > capacity (new_dev [True, True]) \<and>
   brk_make_request (new_dev [True, True]) bio_2040 = Inr (- EIO, bio_2040, new_dev [True, True])"
proof -
  have "bio_end_sector bio_2040 > capacity (new_dev [True, True])"
    by (simp add: bio_end_sector_def bio_2040_def new_dev_def ULONG_WRAP_def drop_bit_eq_div)
  with request_beyond_capacity_fails [of "new_dev [True, True]" bio_2040] show ?thesis
    by simp
qed

text \<open>
  C9. On a well-formed store, however many pages it holds, \<^verbatim>\<open>brk_free_pages\<close> returns, and
  afterwards the radix tree is empty and no page is allocated. The \<^verbatim>\<open>BLKFLSBUF\<close> control
  command, with at most one opener, does this and reports \<open>0\<close>; every read after it stores
  zero bytes only, for any sector and length. With more openers it reports \<open>- EBUSY\<close> and
  changes nothing.
\<close>

theorem free_pages_empties_store:
  assumes inv: "store_inv brk"
  shows "\<exists>brk'. brk_free_pages brk = Inr brk' \<and> brk_pages brk' = [] \<and>
           (\<forall>p. page_at brk' p = None) \<and> store_inv brk' \<and> capacity brk' = capacity brk \<and>
           (bd_openers brk \<le> 1 \<longrightarrow>
              (\<exists>brk''. brk_ioctl brk BLKFLSBUF = Inr (0, brk'') \<and> brk_pages brk'' = [] \<and>
                 capacity brk'' = capacity brk \<and>
                 (\<forall>dst doff sector n. doff + n \<le> length dst \<longrightarrow>
                    copy_from_brk dst doff brk'' sector n
                      = Inr (take doff dst @ replicate n 0 @ drop (doff + n) dst)))) \<and>
           (1 < bd_openers brk \<longrightarrow> brk_ioctl brk BLKFLSBUF = Inr (- EBUSY, brk))"
proof -
  from brk_free_from_spec [OF inv, of 0] obtain brk' where
    f: "brk_free_pages brk = Inr brk'" and i': "store_inv brk'" and e: "brk_pages brk' = []"
    and c: "capacity brk' = capacity brk"
    unfolding brk_free_pages_def by auto
  have ki: "store_inv (kcalls [Kill_bdev] brk)"
    using inv by simp
  from brk_free_from_spec [OF ki, of 0] obtain brk'' where
    f2: "brk_free_pages (kcalls [Kill_bdev] brk) = Inr brk''" and e2: "brk_pages brk'' = []"
    and c2: "capacity brk'' = capacity brk"
    unfolding brk_free_pages_def by (auto simp: kcalls_def)
  have rd: "copy_from_brk dst doff brk'' sector n
      = Inr (take doff dst @ replicate n 0 @ drop (doff + n) dst)"
    if "doff + n \<le> length dst" for dst doff sector n
    using copy_from_brk_empty [OF e2 that] by (simp add: splice_def)
  have io: "brk_ioctl brk BLKFLSBUF = Inr (0, brk'')" if "bd_openers brk \<le> 1"
    using that f2 by (simp add: brk_ioctl_def)
  have busy: "brk_ioctl brk BLKFLSBUF = Inr (- EBUSY, brk)" if "1 < bd_openers brk"
    using that by (simp add: brk_ioctl_def)
  have none: "\<forall>p. page_at brk' p = None"
    using i' e by (simp add: store_inv_empty_pages)
  show ?thesis
  proof (rule exI [of _ brk'], intro conjI impI)
    show "brk_free_pages brk = Inr brk'" by (rule f)
    show "brk_pages brk' = []" by (rule e)
    show "\<forall>p. page_at brk' p = None" by (rule none)
    show "store_inv brk'" by (rule i')
    show "capacity brk' = capacity brk" by (rule c)
  next
    assume o: "bd_openers brk \<le> 1"
    show "\<exists>brk''. brk_ioctl brk BLKFLSBUF = Inr (0, brk'') \<and> brk_pages brk'' = [] \<and>
                 capacity brk'' = capacity brk \<and>
                 (\<forall>dst doff sector n. doff + n \<le> length dst \<longrightarrow>
                    copy_from_brk dst doff brk'' sector n
                      = Inr (take doff dst @ replicate n 0 @ drop (doff + n) dst))"
      using io [OF o] e2 c2 rd by blast
  next
    assume "1 < bd_openers brk"
    then show "brk_ioctl brk BLKFLSBUF = Inr (- EBUSY, brk)" by (rule busy)
  qed
qed

theorem free_pages_empties_store_witness:
  "store_inv dev17 \<and> length (brk_pages dev17) = 17 \<and> bd_openers dev17 \<le> 1 \<and>
   (\<exists>brk'. brk_free_pages dev17 = Inr brk' \<and> brk_pages brk' = []) \<and>
   (\<exists>brk''. brk_ioctl dev17 BLKFLSBUF = Inr (0, brk'') \<and>
      copy_from_brk (replicate 1024 255) 0 brk'' 7 1024 = Inr (replicate 1024 0))"
proof -
  have i: "store_inv dev17"
    by (simp add: store_inv_def tree_ok_def no_leak_def dev17_def page_at_def)
  have l: "length (brk_pages dev17) = 17" and o: "bd_openers dev17 \<le> 1"
    by (simp_all add: dev17_def)
  from free_pages_empties_store [OF i] o obtain brk' brk'' where
    "brk_free_pages dev17 = Inr brk'" "brk_pages brk' = []"
    "brk_ioctl dev17 BLKFLSBUF = Inr (0, brk'')"
    and r: "\<forall>dst doff sector n. doff + n \<le> length dst \<longrightarrow>
                    copy_from_brk dst doff brk'' sector n
                      = Inr (take doff dst @ replicate n 0 @ drop (doff + n) dst)"
    by blast
  moreover from r [rule_format, of 0 1024 "replicate 1024 255" 7]
  have "copy_from_brk (replicate 1024 255) 0 brk'' 7 1024 = Inr (replicate 1024 0)"
    by simp
  ultimately show ?thesis
    using i l o by blast
qed

text \<open>
  C10. \<^verbatim>\<open>discard_from_brk\<close> zeroes \<open>n div PAGE_SIZE\<close> pages, one \<^verbatim>\<open>brk_zero_page\<close> per
  whole \<^verbatim>\<open>PAGE_SIZE\<close> of length, each at the current sector, which then moves on by one
  page length. The remainder \<open>n mod PAGE_SIZE\<close> has no effect, and a discard of less than
  one page returns the device unchanged. On a well-formed store \<^verbatim>\<open>brk_zero_page\<close> makes the
  whole page holding its sector read as zeroes and changes no other page.
\<close>

theorem discard_whole_pages_only:
  "discard_from_brk brk sector n = discard_pages brk sector (n div PAGE_SIZE) \<and>
   discard_from_brk brk sector n = discard_from_brk brk sector (n - n mod PAGE_SIZE) \<and>
   (n < PAGE_SIZE \<longrightarrow> discard_from_brk brk sector n = Inr brk) \<and>
   (store_inv brk \<longrightarrow>
      (\<exists>brk'. brk_zero_page brk sector = Inr brk' \<and> brk_pages brk' = brk_pages brk \<and>
         (\<forall>idx. page_bytes brk' idx =
            (if idx = sector div PAGE_SECTORS then replicate PAGE_SIZE 0
             else page_bytes brk idx))))"
proof (intro conjI impI)
  show "discard_from_brk brk sector n = discard_pages brk sector (n div PAGE_SIZE)"
    by (rule discard_from_brk_pages)
next
  have "(n - n mod PAGE_SIZE) div PAGE_SIZE = n div PAGE_SIZE"
    by (simp add: minus_mod_eq_mult_div PAGE_SIZE_eq)
  then show "discard_from_brk brk sector n = discard_from_brk brk sector (n - n mod PAGE_SIZE)"
    by (simp only: discard_from_brk_pages)
next
  assume "n < PAGE_SIZE"
  then show "discard_from_brk brk sector n = Inr brk"
    by (simp add: discard_from_brk_pages)
next
  assume "store_inv brk"
  from brk_zero_page_spec [OF this, of sector]
  show "\<exists>brk'. brk_zero_page brk sector = Inr brk' \<and> brk_pages brk' = brk_pages brk \<and>
         (\<forall>idx. page_bytes brk' idx =
            (if idx = sector div PAGE_SECTORS then replicate PAGE_SIZE 0
             else page_bytes brk idx))"
    unfolding PAGE_SECTORS_eq by blast
qed

theorem discard_whole_pages_only_witness:
  "4095 < PAGE_SIZE \<and> discard_from_brk dev_page1 8 4095 = Inr dev_page1 \<and>
   store_inv dev_page1 \<and>
   (\<exists>brk'. brk_zero_page dev_page1 8 = Inr brk' \<and>
      page_bytes brk' 1 = replicate PAGE_SIZE 0 \<and> page_bytes brk' 0 = page_bytes dev_page1 0)"
proof -
  have l: "4095 < PAGE_SIZE"
    by (simp add: PAGE_SIZE_eq)
  from discard_whole_pages_only [of dev_page1 8 4095] l store_inv_dev_page1
  have "discard_from_brk dev_page1 8 4095 = Inr dev_page1"
    and "\<exists>brk'. brk_zero_page dev_page1 8 = Inr brk' \<and>
      page_bytes brk' 1 = replicate PAGE_SIZE 0 \<and> page_bytes brk' 0 = page_bytes dev_page1 0"
    by (auto simp: PAGE_SECTORS_eq)
  with l store_inv_dev_page1 show ?thesis
    by blast
qed



end
